theory Spec2Isabelle
  imports Main "HOL-Library.Word" "HOL-Library.AList"
begin

section \<open>Shared object model of the Mark-Sweep and Cascade-Deletion collectors\<close>

text \<open>
  \<^verbatim>\<open>heap_object.h\<close>. A \<^verbatim>\<open>size_t\<close> is a 64-bit word, so sums of sizes wrap as in the
  program. Object ids, steps and counters are C++ \<^verbatim>\<open>int\<close>; signed overflow is undefined
  there and the model uses unbounded integers for them. A \<^verbatim>\<open>std::set<int>\<close> is an
  ordered container: it is the ascending list of its elements, iterated front to back.
  The operation log, the log file and the wall-clock statistic
  \<^verbatim>\<open>total_collection_time\<close> are not part of the model.
\<close>

type_synonym size_t = "64 word"

record HeapObject =
  obj_id :: int
  obj_size :: size_t
  is_marked :: bool
  reference_count :: int
  outgoing_references :: "int list"
  incoming_references :: "int list"
  is_root :: bool
  is_alive :: bool
  allocation_step :: int
  collection_step :: int

text \<open>The default constructor \<^verbatim>\<open>HeapObject()\<close>, which \<^verbatim>\<open>operator[]\<close> of the heap map uses.\<close>

definition HeapObject_default :: HeapObject where
  "HeapObject_default =
     \<lparr>obj_id = - 1, obj_size = 0, is_marked = False, reference_count = 0,
      outgoing_references = [], incoming_references = [], is_root = False,
      is_alive = True, allocation_step = - 1, collection_step = - 1\<rparr>"

text \<open>The constructor \<^verbatim>\<open>HeapObject(id, size, is_root)\<close>.\<close>

definition HeapObject_new :: "int \<Rightarrow> size_t \<Rightarrow> bool \<Rightarrow> HeapObject" where
  "HeapObject_new i sz r =
     \<lparr>obj_id = i, obj_size = sz, is_marked = False,
      reference_count = (if r then 1 else 0),
      outgoing_references = [], incoming_references = [], is_root = r,
      is_alive = True, allocation_step = - 1, collection_step = - 1\<rparr>"

text \<open>\<^verbatim>\<open>std::set<int>::insert\<close> and \<^verbatim>\<open>std::set<int>::erase\<close>.\<close>

definition set_insert :: "int \<Rightarrow> int list \<Rightarrow> int list" where
  "set_insert x xs = (if x \<in> set xs then xs else insort x xs)"

definition set_erase :: "int \<Rightarrow> int list \<Rightarrow> int list" where
  "set_erase x xs = removeAll x xs"

definition add_reference_to :: "int \<Rightarrow> HeapObject \<Rightarrow> HeapObject" where
  "add_reference_to target_id ob =
     ob\<lparr>outgoing_references := set_insert target_id (outgoing_references ob)\<rparr>"

definition remove_reference_to :: "int \<Rightarrow> HeapObject \<Rightarrow> HeapObject" where
  "remove_reference_to target_id ob =
     ob\<lparr>outgoing_references := set_erase target_id (outgoing_references ob)\<rparr>"

definition add_reference_from :: "int \<Rightarrow> HeapObject \<Rightarrow> HeapObject" where
  "add_reference_from source_id ob =
     ob\<lparr>incoming_references := set_insert source_id (incoming_references ob)\<rparr>"

definition remove_reference_from :: "int \<Rightarrow> HeapObject \<Rightarrow> HeapObject" where
  "remove_reference_from source_id ob =
     ob\<lparr>incoming_references := set_erase source_id (incoming_references ob)\<rparr>"

definition get_incoming_reference_count :: "HeapObject \<Rightarrow> int" where
  "get_incoming_reference_count ob = int (length (incoming_references ob))"

definition unmark :: "HeapObject \<Rightarrow> HeapObject" where
  "unmark ob = ob\<lparr>is_marked := False\<rparr>"

subsection \<open>The heap map\<close>

text \<open>
  \<^verbatim>\<open>std::unordered_map<int, HeapObject>\<close> is an association list with one entry per key,
  in the map's iteration order. The standard leaves that order open; a new key is put
  last here, and the theorems that depend on no order say so.
  \<open>heap_at\<close> is the value \<^verbatim>\<open>heap[id]\<close> denotes and \<open>heap_modify\<close> is a write through
  \<^verbatim>\<open>heap[id]\<close>: both see a default-constructed object at a missing key, and the write
  leaves that object in the map.
\<close>

type_synonym heap_map = "(int \<times> HeapObject) list"

definition heap_at :: "heap_map \<Rightarrow> int \<Rightarrow> HeapObject" where
  "heap_at h i = (case map_of h i of Some ob \<Rightarrow> ob | None \<Rightarrow> HeapObject_default)"

definition heap_modify :: "int \<Rightarrow> (HeapObject \<Rightarrow> HeapObject) \<Rightarrow> heap_map \<Rightarrow> heap_map" where
  "heap_modify i f h = AList.update i (f (heap_at h i)) h"

definition object_exists :: "heap_map \<Rightarrow> int \<Rightarrow> bool" where
  "object_exists h i = (case map_of h i of Some ob \<Rightarrow> is_alive ob | None \<Rightarrow> False)"

definition get_total_memory :: "heap_map \<Rightarrow> size_t" where
  "get_total_memory h =
     fold (\<lambda>(i, ob) total. if is_alive ob then total + obj_size ob else total) h 0"

definition get_alive_objects_count :: "heap_map \<Rightarrow> int" where
  "get_alive_objects_count h =
     fold (\<lambda>(i, ob) n. if is_alive ob then n + 1 else n) h 0"

subsection \<open>Collector state\<close>

text \<open>
  \<^verbatim>\<open>MarkSweepGC\<close> and \<^verbatim>\<open>CascadeDeletionGC\<close> declare the same data members; one record
  serves both. The cascade collector's \<^verbatim>\<open>deletion_queue\<close> and
  \<^verbatim>\<open>processed_in_cascade\<close> are reset at the start of every cascade and read nowhere
  else; they are the loop state of \<open>cascade_loop\<close> below.
\<close>

record GCState =
  heap :: heap_map
  next_object_id :: int
  max_heap_size :: size_t
  collection_threshold :: size_t
  collection_count :: int
  total_objects_collected :: int
  total_memory_freed :: size_t
  current_step :: int

definition gc_init :: "size_t \<Rightarrow> size_t \<Rightarrow> GCState" where
  "gc_init max_heap threshold =
     \<lparr>heap = [], next_object_id = 0, max_heap_size = max_heap,
      collection_threshold = threshold, collection_count = 0,
      total_objects_collected = 0, total_memory_freed = 0, current_step = 0\<rparr>"

definition get_free_memory :: "GCState \<Rightarrow> size_t" where
  "get_free_memory s = max_heap_size s - get_total_memory (heap s)"

definition has_enough_memory :: "GCState \<Rightarrow> size_t \<Rightarrow> bool" where
  "has_enough_memory s sz = (get_free_memory s \<ge> sz)"

text \<open>
  \<^verbatim>\<open>add_reference\<close>, \<^verbatim>\<open>make_root\<close> and \<^verbatim>\<open>remove_root\<close> have the same body in both
  collectors. The result of \<^verbatim>\<open>add_reference\<close> is the returned flag and the new state.
\<close>

definition add_reference :: "int \<Rightarrow> int \<Rightarrow> GCState \<Rightarrow> bool \<times> GCState" where
  "add_reference from_id to_id s =
     (if \<not> object_exists (heap s) from_id then (False, s)
      else if \<not> object_exists (heap s) to_id then (False, s)
      else if to_id \<in> set (outgoing_references (heap_at (heap s) from_id)) then (True, s)
      else (True, s\<lparr>heap := heap_modify to_id (add_reference_from from_id)
                              (heap_modify from_id (add_reference_to to_id) (heap s))\<rparr>))"

definition make_root :: "int \<Rightarrow> GCState \<Rightarrow> GCState" where
  "make_root object_id s =
     (if object_exists (heap s) object_id
      then s\<lparr>heap := heap_modify object_id (\<lambda>ob. ob\<lparr>is_root := True\<rparr>) (heap s)\<rparr>
      else s)"

definition remove_root :: "int \<Rightarrow> GCState \<Rightarrow> GCState" where
  "remove_root object_id s =
     (if object_exists (heap s) object_id
      then s\<lparr>heap := heap_modify object_id (\<lambda>ob. ob\<lparr>is_root := False\<rparr>) (heap s)\<rparr>
      else s)"

text \<open>
  The bilateral removal that both \<^verbatim>\<open>remove_reference\<close> functions perform once their
  checks have passed (\<^verbatim>\<open>source.remove_reference_to(to_id); target.remove_reference_from(from_id)\<close>).
\<close>

definition remove_edge :: "int \<Rightarrow> int \<Rightarrow> heap_map \<Rightarrow> heap_map" where
  "remove_edge from_id to_id h =
     heap_modify to_id (remove_reference_from from_id)
       (heap_modify from_id (remove_reference_to to_id) h)"

text \<open>
  The two detaching loops that \<^verbatim>\<open>sweep_phase\<close> and \<^verbatim>\<open>cascade_delete\<close> run over the dying
  object's incoming and outgoing sets. The second loop of the sweep reads the outgoing
  set as the first loop left it.
\<close>

definition detach_incoming :: "int \<Rightarrow> heap_map \<Rightarrow> heap_map" where
  "detach_incoming i h =
     fold (\<lambda>source_id h'. if object_exists h' source_id
                           then heap_modify source_id (remove_reference_to i) h' else h')
       (incoming_references (heap_at h i)) h"

definition detach_outgoing :: "int \<Rightarrow> heap_map \<Rightarrow> heap_map" where
  "detach_outgoing i h =
     fold (\<lambda>target_id h'. if object_exists h' target_id
                           then heap_modify target_id (remove_reference_from i) h' else h')
       (outgoing_references (heap_at h i)) h"

section \<open>The Mark-Sweep collector\<close>

definition ms_remove_reference :: "int \<Rightarrow> int \<Rightarrow> GCState \<Rightarrow> bool \<times> GCState" where
  "ms_remove_reference from_id to_id s =
     (if \<not> object_exists (heap s) from_id then (False, s)
      else if \<not> object_exists (heap s) to_id then (False, s)
      else if to_id \<notin> set (outgoing_references (heap_at (heap s) from_id)) then (False, s)
      else (True, s\<lparr>heap := remove_edge from_id to_id (heap s)\<rparr>))"

definition get_root_objects :: "heap_map \<Rightarrow> int list" where
  "get_root_objects h = map fst (filter (\<lambda>(i, ob). is_root ob \<and> is_alive ob) h)"

definition unmarked_count :: "heap_map \<Rightarrow> nat" where
  "unmarked_count h = length (filter (\<lambda>(i, ob). \<not> is_marked ob) h)"

text \<open>
  \<^verbatim>\<open>dfs_mark\<close> and its loop over the outgoing set. The loop's test
  \<^verbatim>\<open>!heap[target_id].is_marked\<close> goes through \<^verbatim>\<open>operator[]\<close>: at a key the map does not
  hold it inserts a default object (alive, unmarked, no edges), the recursive call then
  marks that object and returns. The \<open>None\<close> branch is that outcome.
\<close>

function dfs_mark :: "int \<Rightarrow> heap_map \<Rightarrow> heap_map"
  and dfs_targets :: "int list \<Rightarrow> heap_map \<Rightarrow> heap_map" where
  "dfs_mark object_id h =
     (if \<not> object_exists h object_id then h
      else if is_marked (heap_at h object_id) then h
      else dfs_targets (outgoing_references (heap_at h object_id))
             (heap_modify object_id (\<lambda>ob. ob\<lparr>is_marked := True\<rparr>) h))"
| "dfs_targets [] h = h"
| "dfs_targets (target_id # rest) h =
     (case map_of h target_id of
        None \<Rightarrow> dfs_targets rest (h @ [(target_id, HeapObject_default\<lparr>is_marked := True\<rparr>)])
      | Some ob \<Rightarrow>
          if \<not> is_marked ob then dfs_targets rest (dfs_mark target_id h)
          else dfs_targets rest h)"
  by pat_completeness auto

lemma unmarked_count_update_marked:
  "map_of h i = Some ob \<Longrightarrow> \<not> is_marked ob \<Longrightarrow>
   unmarked_count (AList.update i (ob\<lparr>is_marked := True\<rparr>) h) < unmarked_count h"
proof (induction h)
  case Nil
  then show ?case by simp
next
  case (Cons p h)
  then show ?case
    by (cases p) (auto simp: unmarked_count_def split: if_splits)
qed

lemma unmarked_count_mark_step:
  assumes "object_exists h i" and "\<not> is_marked (heap_at h i)"
  shows "unmarked_count (heap_modify i (\<lambda>ob. ob\<lparr>is_marked := True\<rparr>) h) < unmarked_count h"
proof -
  from assms(1) obtain ob where ob: "map_of h i = Some ob"
    by (auto simp: object_exists_def split: option.splits)
  with assms(2) have "\<not> is_marked ob" by (simp add: heap_at_def)
  with ob show ?thesis
    by (simp add: heap_modify_def heap_at_def unmarked_count_update_marked)
qed

lemma unmarked_count_append_marked:
  "unmarked_count (h @ [(i, HeapObject_default\<lparr>is_marked := True\<rparr>)]) = unmarked_count h"
  by (simp add: unmarked_count_def)

lemma dfs_unmarked_le:
  "dfs_mark_dfs_targets_dom (Inl (i, h)) \<Longrightarrow> unmarked_count (dfs_mark i h) \<le> unmarked_count h"
  "dfs_mark_dfs_targets_dom (Inr (ts, h)) \<Longrightarrow> unmarked_count (dfs_targets ts h) \<le> unmarked_count h"
proof (induction i h and ts h rule: dfs_mark_dfs_targets.pinduct)
  case (1 object_id h)
  show ?case
  proof (cases "object_exists h object_id \<and> \<not> is_marked (heap_at h object_id)")
    case True
    then have "unmarked_count (heap_modify object_id (\<lambda>ob. ob\<lparr>is_marked := True\<rparr>) h) < unmarked_count h"
      by (simp add: unmarked_count_mark_step)
    moreover have "unmarked_count (dfs_mark object_id h)
        \<le> unmarked_count (heap_modify object_id (\<lambda>ob. ob\<lparr>is_marked := True\<rparr>) h)"
      using 1 True by (simp add: dfs_mark.psimps)
    ultimately show ?thesis by simp
  next
    case False
    then show ?thesis using 1(1) by (auto simp: dfs_mark.psimps)
  qed
next
  case (2 h)
  then show ?case by (simp add: dfs_targets.psimps)
next
  case (3 target_id rest h)
  show ?case
  proof (cases "map_of h target_id")
    case None
    then show ?thesis using 3 by (simp add: dfs_targets.psimps unmarked_count_append_marked)
  next
    case (Some ob)
    show ?thesis
    proof (cases "is_marked ob")
      case True
      then show ?thesis using 3 Some by (simp add: dfs_targets.psimps)
    next
      case False
      have "unmarked_count (dfs_targets rest (dfs_mark target_id h)) \<le> unmarked_count (dfs_mark target_id h)"
        using 3 Some False by simp
      also have "\<dots> \<le> unmarked_count h" using 3 Some False by simp
      finally show ?thesis using 3(1) Some False by (simp add: dfs_targets.psimps)
    qed
  qed
qed

termination dfs_mark
proof (relation "inv_image (less_than <*lex*> less_than)
    (\<lambda>x. case x of Inl (i, h) \<Rightarrow> (unmarked_count h, 0::nat)
                 | Inr (ts, h) \<Rightarrow> (unmarked_count h, Suc (length ts)))", goal_cases)
  case 1
  show ?case by (intro wf_inv_image wf_lex_prod wf_less_than)
next
  case (2 object_id h)
  then show ?case by (simp add: unmarked_count_mark_step)
next
  case (3 target_id rest h)
  then show ?case by (simp add: unmarked_count_append_marked)
next
  case (4 target_id rest h ob)
  then show ?case by simp
next
  case (5 target_id rest h ob)
  then show ?case using dfs_unmarked_le(1)[of target_id h] by (auto intro: le_imp_less_or_eq)
next
  case (6 target_id rest h ob)
  then show ?case by simp
qed

definition mark_phase :: "heap_map \<Rightarrow> heap_map" where
  "mark_phase h =
     (let h0 = map (\<lambda>(i, ob). (i, unmark ob)) h;
          roots = get_root_objects h0
      in fold dfs_mark roots h0)"

text \<open>The body of the sweep's deletion loop for one id of \<^verbatim>\<open>to_delete\<close>.\<close>

definition sweep_delete :: "int \<Rightarrow> int \<Rightarrow> heap_map \<Rightarrow> heap_map" where
  "sweep_delete step i h =
     heap_modify i (\<lambda>ob. ob\<lparr>is_alive := False, collection_step := step\<rparr>)
       (detach_outgoing i (detach_incoming i h))"

definition sweep_candidates :: "heap_map \<Rightarrow> int list" where
  "sweep_candidates h =
     map fst (filter (\<lambda>(i, ob). \<not> is_marked ob \<and> \<not> is_root ob \<and> is_alive ob) h)"

definition sweep_phase :: "GCState \<Rightarrow> size_t \<times> GCState" where
  "sweep_phase s =
     (let to_delete = sweep_candidates (heap s);
          (freed_memory, h') =
             fold (\<lambda>i (freed, h).
                     let h1 = sweep_delete (current_step s) i h
                     in (freed + obj_size (heap_at h1 i), h1))
               to_delete (0, heap s)
      in (freed_memory,
          s\<lparr>heap := h',
            total_objects_collected := total_objects_collected s + int (length to_delete)\<rparr>))"

definition ms_collect :: "GCState \<Rightarrow> size_t \<times> GCState" where
  "ms_collect s =
     (let s1 = s\<lparr>heap := mark_phase (heap s)\<rparr>;
          (freed_memory, s2) = sweep_phase s1
      in (freed_memory,
          s2\<lparr>collection_count := collection_count s2 + 1,
             total_memory_freed := total_memory_freed s2 + freed_memory\<rparr>))"

text \<open>
  \<^verbatim>\<open>allocate\<close> is the same text in both collectors but for the \<^verbatim>\<open>collect\<close> it calls.
  The result is the returned id (\<open>- 1\<close> on failure) and the new state.
\<close>

definition allocate_with ::
  "(GCState \<Rightarrow> size_t \<times> GCState) \<Rightarrow> size_t \<Rightarrow> GCState \<Rightarrow> int \<times> GCState" where
  "allocate_with collect sz s =
     (if sz = 0 \<or> sz > max_heap_size s then (- 1, s)
      else
        let s1 = (if \<not> has_enough_memory s sz then snd (collect s) else s)
        in if \<not> has_enough_memory s1 sz then (- 1, s1)
           else
             let object_id = next_object_id s1;
                 ob = (HeapObject_new object_id sz False)\<lparr>allocation_step := current_step s1\<rparr>
             in (object_id,
                 s1\<lparr>next_object_id := object_id + 1,
                    heap := AList.update object_id ob (heap s1)\<rparr>))"

definition ms_allocate :: "size_t \<Rightarrow> GCState \<Rightarrow> int \<times> GCState" where
  "ms_allocate = allocate_with ms_collect"

section \<open>The Cascade-Deletion collector\<close>

definition should_be_deleted :: "heap_map \<Rightarrow> int \<Rightarrow> bool" where
  "should_be_deleted h object_id =
     (if \<not> object_exists h object_id then False
      else if is_root (heap_at h object_id) then False
      else get_incoming_reference_count (heap_at h object_id) = 0)"

text \<open>
  The second detaching loop of \<^verbatim>\<open>cascade_delete\<close>: it also pushes every target that
  has just become an orphan onto the deletion queue.
\<close>

definition cascade_detach_outgoing ::
  "int \<Rightarrow> heap_map \<times> int list \<Rightarrow> heap_map \<times> int list" where
  "cascade_detach_outgoing current_id hq =
     fold (\<lambda>target_id (h, queue).
             if object_exists h target_id
             then let h' = heap_modify target_id (remove_reference_from current_id) h
                  in (h', if should_be_deleted h' target_id then queue @ [target_id] else queue)
             else (h, queue))
       (outgoing_references (heap_at (fst hq) current_id)) hq"

definition cascade_kill :: "int \<Rightarrow> int \<Rightarrow> heap_map \<times> int list \<Rightarrow> heap_map \<times> int list" where
  "cascade_kill step current_id hq =
     (let (h2, queue) = cascade_detach_outgoing current_id
                          (detach_incoming current_id (fst hq), snd hq)
      in (heap_modify current_id (\<lambda>ob. ob\<lparr>is_alive := False, collection_step := step\<rparr>) h2,
          queue))"

definition alive_count :: "heap_map \<Rightarrow> nat" where
  "alive_count h = length (filter (\<lambda>(i, ob). is_alive ob) h)"

text \<open>
  The \<^verbatim>\<open>while (!deletion_queue.empty())\<close> loop. The arguments are the simulation step,
  the queue (front first), the ids whose \<^verbatim>\<open>processed_in_cascade\<close> flag is set, the
  heap, the bytes freed so far and the number of objects deleted so far.
\<close>

function cascade_loop ::
  "int \<Rightarrow> int list \<Rightarrow> int set \<Rightarrow> heap_map \<Rightarrow> size_t \<Rightarrow> int \<Rightarrow> heap_map \<times> size_t \<times> int" where
  "cascade_loop step [] processed h freed n = (h, freed, n)"
| "cascade_loop step (current_id # queue) processed h freed n =
     (if current_id \<in> processed then cascade_loop step queue processed h freed n
      else if \<not> object_exists h current_id
        then cascade_loop step queue (insert current_id processed) h freed n
      else if is_root (heap_at h current_id)
        then cascade_loop step queue (insert current_id processed) h freed n
      else
        cascade_loop step (snd (cascade_kill step current_id (h, queue)))
          (insert current_id processed)
          (fst (cascade_kill step current_id (h, queue)))
          (freed + obj_size (heap_at (fst (cascade_kill step current_id (h, queue))) current_id))
          (n + 1))"
  by pat_completeness auto

lemma heap_at_modify: "heap_at (heap_modify i f h) j = (if j = i then f (heap_at h i) else heap_at h j)"
  by (simp add: heap_modify_def heap_at_def update_conv)

lemma object_exists_modify:
  "object_exists (heap_modify i f h) j = (if j = i then is_alive (f (heap_at h i)) else object_exists h j)"
  by (simp add: heap_modify_def object_exists_def update_conv)

lemma update_keys_present: "map_of h i = Some ob \<Longrightarrow> map fst (AList.update i ob' h) = map fst h"
  by (induction h) (auto split: if_splits)

lemma object_exists_key: "object_exists h i \<Longrightarrow> \<exists>ob. map_of h i = Some ob \<and> is_alive ob \<and> heap_at h i = ob"
  by (auto simp: object_exists_def heap_at_def split: option.splits)

lemma keys_modify_present: "i \<in> fst ` set h \<Longrightarrow> map fst (heap_modify i f h) = map fst h"
proof -
  assume "i \<in> fst ` set h"
  then obtain ob where "map_of h i = Some ob"
    by (metis domD dom_map_of_conv_image_fst)
  then show ?thesis by (simp add: heap_modify_def update_keys_present)
qed

lemma alive_count_update_same:
  "map_of h i = Some ob \<Longrightarrow> is_alive ob' = is_alive ob \<Longrightarrow>
   alive_count (AList.update i ob' h) = alive_count h"
  by (induction h) (auto simp: alive_count_def split: if_splits)

lemma alive_count_update_kill:
  "map_of h i = Some ob \<Longrightarrow> is_alive ob \<Longrightarrow> \<not> is_alive ob' \<Longrightarrow>
   alive_count (AList.update i ob' h) < alive_count h"
  by (induction h) (auto simp: alive_count_def split: if_splits)

lemma alive_count_modify_same:
  "object_exists h i \<Longrightarrow> is_alive (f (heap_at h i)) = is_alive (heap_at h i) \<Longrightarrow>
   alive_count (heap_modify i f h) = alive_count h"
  by (auto simp: heap_modify_def dest!: object_exists_key intro: alive_count_update_same)

lemma alive_count_modify_kill:
  "object_exists h i \<Longrightarrow> \<not> is_alive (f (heap_at h i)) \<Longrightarrow>
   alive_count (heap_modify i f h) < alive_count h"
  by (auto simp: heap_modify_def dest!: object_exists_key intro: alive_count_update_kill)

definition modify_each :: "(HeapObject \<Rightarrow> HeapObject) \<Rightarrow> int list \<Rightarrow> heap_map \<Rightarrow> heap_map" where
  "modify_each f ids h =
     fold (\<lambda>x h'. if object_exists h' x then heap_modify x f h' else h') ids h"

lemma modify_each_Nil: "modify_each f [] h = h"
  by (simp add: modify_each_def)

lemma modify_each_Cons:
  "modify_each f (x # xs) h =
     modify_each f xs (if object_exists h x then heap_modify x f h else h)"
  by (simp add: modify_each_def)

lemma detach_incoming_eq:
  "detach_incoming i h = modify_each (remove_reference_to i) (incoming_references (heap_at h i)) h"
  by (simp add: detach_incoming_def modify_each_def)

lemma detach_outgoing_eq:
  "detach_outgoing i h = modify_each (remove_reference_from i) (outgoing_references (heap_at h i)) h"
  by (simp add: detach_outgoing_def modify_each_def)

lemma object_exists_modify_each:
  assumes "\<And>ob. is_alive (f ob) = is_alive ob"
  shows "object_exists (modify_each f xs h) j = object_exists h j"
  using assms
  by (induction xs arbitrary: h) (auto simp: modify_each_Nil modify_each_Cons object_exists_modify dest: object_exists_key)

lemma keys_modify_each: "map fst (modify_each f xs h) = map fst h"
proof (induction xs arbitrary: h)
  case Nil
  show ?case by (simp add: modify_each_Nil)
next
  case (Cons x xs)
  have "map fst (if object_exists h x then heap_modify x f h else h) = map fst h"
    by (auto simp: heap_modify_def dest!: object_exists_key intro: update_keys_present)
  with Cons show ?case by (simp add: modify_each_Cons)
qed

lemma alive_count_modify_each:
  assumes "\<And>ob. is_alive (f ob) = is_alive ob"
  shows "alive_count (modify_each f xs h) = alive_count h"
proof (induction xs arbitrary: h)
  case Nil
  show ?case by (simp add: modify_each_Nil)
next
  case (Cons x xs)
  have "alive_count (if object_exists h x then heap_modify x f h else h) = alive_count h"
    by (simp add: alive_count_modify_same assms)
  with Cons show ?case by (simp add: modify_each_Cons)
qed

lemma heap_at_modify_each:
  assumes alive: "\<And>ob. is_alive (f ob) = is_alive ob" and idem: "\<And>ob. f (f ob) = f ob"
  shows "heap_at (modify_each f xs h) j =
           (if j \<in> set xs \<and> object_exists h j then f (heap_at h j) else heap_at h j)"
proof (induction xs arbitrary: h)
  case Nil
  show ?case by (simp add: modify_each_Nil)
next
  case (Cons x xs)
  show ?case
    by (auto simp: modify_each_Cons Cons.IH object_exists_modify heap_at_modify alive idem)
qed

lemma remove_reference_to_facts [simp]:
  "is_alive (remove_reference_to i ob) = is_alive ob"
  "is_root (remove_reference_to i ob) = is_root ob"
  "is_marked (remove_reference_to i ob) = is_marked ob"
  "obj_size (remove_reference_to i ob) = obj_size ob"
  "collection_step (remove_reference_to i ob) = collection_step ob"
  "incoming_references (remove_reference_to i ob) = incoming_references ob"
  "outgoing_references (remove_reference_to i ob) = removeAll i (outgoing_references ob)"
  "remove_reference_to i (remove_reference_to i ob) = remove_reference_to i ob"
  by (simp_all add: remove_reference_to_def set_erase_def)

lemma remove_reference_from_facts [simp]:
  "is_alive (remove_reference_from i ob) = is_alive ob"
  "is_root (remove_reference_from i ob) = is_root ob"
  "is_marked (remove_reference_from i ob) = is_marked ob"
  "obj_size (remove_reference_from i ob) = obj_size ob"
  "collection_step (remove_reference_from i ob) = collection_step ob"
  "outgoing_references (remove_reference_from i ob) = outgoing_references ob"
  "incoming_references (remove_reference_from i ob) = removeAll i (incoming_references ob)"
  "remove_reference_from i (remove_reference_from i ob) = remove_reference_from i ob"
  by (simp_all add: remove_reference_from_def set_erase_def)

lemma fst_cascade_fold:
  "fst (fold (\<lambda>target_id (h, queue).
             if object_exists h target_id
             then let h' = heap_modify target_id (remove_reference_from c) h
                  in (h', if should_be_deleted h' target_id then queue @ [target_id] else queue)
             else (h, queue)) xs (h, q))
   = modify_each (remove_reference_from c) xs h"
  by (induction xs arbitrary: h q) (simp_all add: modify_each_Nil modify_each_Cons Let_def)

lemma fst_cascade_detach_outgoing:
  "fst (cascade_detach_outgoing c (h, q)) = detach_outgoing c h"
  by (simp add: cascade_detach_outgoing_def detach_outgoing_eq fst_cascade_fold)

lemma fst_cascade_kill: "fst (cascade_kill step c (h, q)) = sweep_delete step c h"
  by (simp add: cascade_kill_def sweep_delete_def split_beta fst_cascade_detach_outgoing)

lemma object_exists_detach [simp]:
  "object_exists (detach_incoming i h) j = object_exists h j"
  "object_exists (detach_outgoing i h) j = object_exists h j"
  by (simp_all add: detach_incoming_eq detach_outgoing_eq object_exists_modify_each)

lemma alive_count_detach [simp]:
  "alive_count (detach_incoming i h) = alive_count h"
  "alive_count (detach_outgoing i h) = alive_count h"
  by (simp_all add: detach_incoming_eq detach_outgoing_eq alive_count_modify_each)

lemma alive_count_sweep_delete:
  "object_exists h i \<Longrightarrow> alive_count (sweep_delete step i h) < alive_count h"
proof -
  assume ex: "object_exists h i"
  let ?h2 = "detach_outgoing i (detach_incoming i h)"
  have "object_exists ?h2 i" using ex by simp
  then have "alive_count (heap_modify i (\<lambda>ob. ob\<lparr>is_alive := False, collection_step := step\<rparr>) ?h2)
      < alive_count ?h2"
    by (rule alive_count_modify_kill) simp
  then show ?thesis by (simp add: sweep_delete_def)
qed

termination cascade_loop
proof (relation "inv_image (less_than <*lex*> less_than)
    (\<lambda>(step, queue, processed, h, freed, n). (alive_count h, length queue))", goal_cases)
  case 1
  show ?case by (intro wf_inv_image wf_lex_prod wf_less_than)
next
  case (2 step current_id queue processed h freed n)
  then show ?case by simp
next
  case (3 step current_id queue processed h freed n)
  then show ?case by simp
next
  case (4 step current_id queue processed h freed n)
  then show ?case by simp
next
  case (5 step current_id queue processed h freed n)
  then show ?case by (simp add: fst_cascade_kill alive_count_sweep_delete)
qed

definition cascade_delete :: "int \<Rightarrow> GCState \<Rightarrow> size_t \<times> GCState" where
  "cascade_delete object_id s =
     (if \<not> object_exists (heap s) object_id then (0, s)
      else
        let (h', freed_memory, n) = cascade_loop (current_step s) [object_id] {} (heap s) 0 0
        in (freed_memory,
            s\<lparr>heap := h', total_objects_collected := total_objects_collected s + n\<rparr>))"

definition cd_remove_reference :: "int \<Rightarrow> int \<Rightarrow> GCState \<Rightarrow> bool \<times> GCState" where
  "cd_remove_reference from_id to_id s =
     (if \<not> object_exists (heap s) from_id then (False, s)
      else if \<not> object_exists (heap s) to_id then (False, s)
      else if to_id \<notin> set (outgoing_references (heap_at (heap s) from_id)) then (False, s)
      else
        let s1 = s\<lparr>heap := remove_edge from_id to_id (heap s)\<rparr>
        in if should_be_deleted (heap s1) to_id then (True, snd (cascade_delete to_id s1))
           else (True, s1))"

definition find_orphans :: "heap_map \<Rightarrow> int list" where
  "find_orphans h =
     map fst (filter (\<lambda>(i, ob). is_alive ob \<and> \<not> is_root ob
                                 \<and> get_incoming_reference_count ob = 0) h)"

definition cd_collect :: "GCState \<Rightarrow> size_t \<times> GCState" where
  "cd_collect s =
     (let orphans = find_orphans (heap s);
          (total_freed, s1) =
             fold (\<lambda>orphan_id (freed, s').
                     if object_exists (heap s') orphan_id
                     then let (f, s'') = cascade_delete orphan_id s' in (freed + f, s'')
                     else (freed, s'))
               orphans (0, s)
      in (total_freed,
          s1\<lparr>collection_count := collection_count s1 + 1,
             total_memory_freed := total_memory_freed s1 + total_freed\<rparr>))"

definition cd_allocate :: "size_t \<Rightarrow> GCState \<Rightarrow> int \<times> GCState" where
  "cd_allocate = allocate_with cd_collect"

section \<open>Operation sequences of the two graph-based collectors\<close>

text \<open>
  The public operations a driver can apply, and the state after a sequence of them.
  Results returned to the driver are dropped here; the functions above give them.
\<close>

datatype gc_op =
    Allocate size_t
  | AddReference int int
  | RemoveReference int int
  | Collect
  | MakeRoot int
  | RemoveRoot int
  | SetCurrentStep int

fun ms_step :: "gc_op \<Rightarrow> GCState \<Rightarrow> GCState" where
  "ms_step (Allocate sz) s = snd (ms_allocate sz s)"
| "ms_step (AddReference a b) s = snd (add_reference a b s)"
| "ms_step (RemoveReference a b) s = snd (ms_remove_reference a b s)"
| "ms_step Collect s = snd (ms_collect s)"
| "ms_step (MakeRoot i) s = make_root i s"
| "ms_step (RemoveRoot i) s = remove_root i s"
| "ms_step (SetCurrentStep n) s = s\<lparr>current_step := n\<rparr>"

fun cd_step :: "gc_op \<Rightarrow> GCState \<Rightarrow> GCState" where
  "cd_step (Allocate sz) s = snd (cd_allocate sz s)"
| "cd_step (AddReference a b) s = snd (add_reference a b s)"
| "cd_step (RemoveReference a b) s = snd (cd_remove_reference a b s)"
| "cd_step Collect s = snd (cd_collect s)"
| "cd_step (MakeRoot i) s = make_root i s"
| "cd_step (RemoveRoot i) s = remove_root i s"
| "cd_step (SetCurrentStep n) s = s\<lparr>current_step := n\<rparr>"

definition ms_run :: "gc_op list \<Rightarrow> GCState \<Rightarrow> GCState" where
  "ms_run ops s = fold ms_step ops s"

definition cd_run :: "gc_op list \<Rightarrow> GCState \<Rightarrow> GCState" where
  "cd_run ops s = fold cd_step ops s"

section \<open>The Reference-Counting collector\<close>

text \<open>
  \<^verbatim>\<open>rc_object.h\<close>, \<^verbatim>\<open>rc_heap.cpp\<close> and \<^verbatim>\<open>reference_counter.cpp\<close>. The outgoing references
  are a \<^verbatim>\<open>std::vector<int>\<close>, a list in insertion order. The event logger is left out,
  except that \<open>detect_and_log_leaks\<close> returns the ids it hands to \<^verbatim>\<open>log_leak\<close>.
\<close>

record RCObject =
  rc_id :: int
  ref_count :: int
  references :: "int list"

definition RCObject_default :: RCObject where
  "RCObject_default = \<lparr>rc_id = - 1, ref_count = 0, references = []\<rparr>"

definition RCObject_new :: "int \<Rightarrow> RCObject" where
  "RCObject_new i = \<lparr>rc_id = i, ref_count = 0, references = []\<rparr>"

definition has_reference_to :: "RCObject \<Rightarrow> int \<Rightarrow> bool" where
  "has_reference_to ob target_id = (target_id \<in> set (references ob))"

definition add_outgoing_ref :: "int \<Rightarrow> RCObject \<Rightarrow> RCObject" where
  "add_outgoing_ref target_id ob =
     (if \<not> has_reference_to ob target_id
      then ob\<lparr>references := references ob @ [target_id]\<rparr> else ob)"

definition remove_outgoing_ref :: "int \<Rightarrow> RCObject \<Rightarrow> RCObject" where
  "remove_outgoing_ref target_id ob = ob\<lparr>references := remove1 target_id (references ob)\<rparr>"

type_synonym rc_map = "(int \<times> RCObject) list"

definition rc_count :: "rc_map \<Rightarrow> int \<Rightarrow> bool" where
  "rc_count m i = (map_of m i \<noteq> None)"

definition rc_at :: "rc_map \<Rightarrow> int \<Rightarrow> RCObject" where
  "rc_at m i = (case map_of m i of Some ob \<Rightarrow> ob | None \<Rightarrow> RCObject_default)"

definition rc_modify :: "int \<Rightarrow> (RCObject \<Rightarrow> RCObject) \<Rightarrow> rc_map \<Rightarrow> rc_map" where
  "rc_modify i f m = AList.update i (f (rc_at m i)) m"

text \<open>The decrement with its clamp at zero, as \<^verbatim>\<open>cascade_delete\<close> applies it to a child.\<close>

definition decrement_clamped :: "RCObject \<Rightarrow> RCObject" where
  "decrement_clamped ob =
     (let c = ref_count ob - 1 in ob\<lparr>ref_count := (if c < 0 then 0 else c)\<rparr>)"

definition unvisited_count :: "rc_map \<Rightarrow> int set \<Rightarrow> nat" where
  "unvisited_count m visited = length (filter (\<lambda>(k, ob). k \<notin> visited) m)"

text \<open>
  \<^verbatim>\<open>ReferenceCounter::cascade_delete\<close> and its loop over the copied child list. The
  state is the heap map and the set \<^verbatim>\<open>visited\<close>, which the caller passes by reference.
\<close>

function counter_cascade_delete :: "int \<Rightarrow> rc_map \<times> int set \<Rightarrow> rc_map \<times> int set"
  and cascade_children :: "int list \<Rightarrow> rc_map \<times> int set \<Rightarrow> rc_map \<times> int set" where
  "counter_cascade_delete oid (m, visited) =
     (if \<not> rc_count m oid then (m, visited)
      else if oid \<in> visited then (m, visited)
      else if ref_count (rc_at m oid) \<noteq> 0 then (m, insert oid visited)
      else
        (case cascade_children (references (rc_at m oid)) (m, insert oid visited) of
           (m', visited') \<Rightarrow> (AList.delete oid m', visited')))"
| "cascade_children [] mv = mv"
| "cascade_children (child # rest) (m, visited) =
     (if rc_count m child
      then
        let m1 = rc_modify child decrement_clamped m
        in if ref_count (rc_at m1 child) = 0
           then cascade_children rest (counter_cascade_delete child (m1, visited))
           else cascade_children rest (m1, visited)
      else cascade_children rest (m, visited))"
  by pat_completeness auto

lemma unvisited_count_insert:
  "rc_count m i \<Longrightarrow> i \<notin> visited \<Longrightarrow> unvisited_count m (insert i visited) < unvisited_count m visited"
proof (induction m)
  case Nil
  then show ?case by (simp add: rc_count_def)
next
  case (Cons p m)
  show ?case
  proof (cases "fst p = i")
    case True
    have "unvisited_count m (insert i visited) \<le> unvisited_count m visited"
      unfolding unvisited_count_def by (induction m) auto
    with True Cons.prems show ?thesis
      by (cases p) (simp add: unvisited_count_def)
  next
    case False
    with Cons show ?thesis
      by (cases p) (auto simp: unvisited_count_def rc_count_def)
  qed
qed

lemma unvisited_count_delete: "unvisited_count (AList.delete i m) visited \<le> unvisited_count m visited"
  unfolding unvisited_count_def AList.delete_eq by (induction m) auto

lemma unvisited_count_update:
  "map_of m i = Some ob \<Longrightarrow> unvisited_count (AList.update i ob' m) visited = unvisited_count m visited"
  by (induction m) (auto simp: unvisited_count_def split: if_splits)

lemma unvisited_count_modify:
  "rc_count m i \<Longrightarrow> unvisited_count (rc_modify i f m) visited = unvisited_count m visited"
  by (auto simp: rc_count_def rc_modify_def unvisited_count_update)

lemma cascade_unvisited_le:
  "counter_cascade_delete_cascade_children_dom (Inl (i, mv)) \<Longrightarrow>
     unvisited_count (fst (counter_cascade_delete i mv)) (snd (counter_cascade_delete i mv))
       \<le> unvisited_count (fst mv) (snd mv)"
  "counter_cascade_delete_cascade_children_dom (Inr (cs, mv)) \<Longrightarrow>
     unvisited_count (fst (cascade_children cs mv)) (snd (cascade_children cs mv))
       \<le> unvisited_count (fst mv) (snd mv)"
proof (induction i mv and cs mv rule: counter_cascade_delete_cascade_children.pinduct)
  case (1 oid m visited)
  show ?case
  proof (cases "rc_count m oid \<and> oid \<notin> visited")
    case False
    then show ?thesis using 1(1) by (auto simp: counter_cascade_delete.psimps)
  next
    case True
    then have lt: "unvisited_count m (insert oid visited) < unvisited_count m visited"
      by (simp add: unvisited_count_insert)
    show ?thesis
    proof (cases "ref_count (rc_at m oid) = 0")
      case False
      with True lt show ?thesis using 1(1) by (simp add: counter_cascade_delete.psimps)
    next
      case z: True
      obtain m' v' where r: "cascade_children (references (rc_at m oid)) (m, insert oid visited) = (m', v')"
        by (cases "cascade_children (references (rc_at m oid)) (m, insert oid visited)")
      have "unvisited_count m' v' \<le> unvisited_count m (insert oid visited)"
        using 1(2) True z r by simp
      moreover have "unvisited_count (AList.delete oid m') v' \<le> unvisited_count m' v'"
        by (rule unvisited_count_delete)
      ultimately show ?thesis using 1(1) True z r lt
        by (simp add: counter_cascade_delete.psimps)
    qed
  qed
next
  case (2 mv)
  then show ?case by (simp add: cascade_children.psimps)
next
  case (3 child rest m visited)
  show ?case
  proof (cases "rc_count m child")
    case False
    then show ?thesis using 3 by (simp add: cascade_children.psimps)
  next
    case True
    let ?m1 = "rc_modify child decrement_clamped m"
    have m1: "unvisited_count ?m1 visited = unvisited_count m visited"
      using True by (simp add: unvisited_count_modify)
    show ?thesis
    proof (cases "ref_count (rc_at ?m1 child) = 0")
      case False
      then show ?thesis using 3 True m1 by (simp add: cascade_children.psimps)
    next
      case z: True
      let ?r = "counter_cascade_delete child (?m1, visited)"
      have "unvisited_count (fst (cascade_children rest ?r)) (snd (cascade_children rest ?r))
          \<le> unvisited_count (fst ?r) (snd ?r)"
        using 3(3)[OF True refl z] by simp
      also have "\<dots> \<le> unvisited_count ?m1 visited"
        using 3(2)[OF True refl z] by simp
      finally show ?thesis using 3(1) True z m1 by (simp add: cascade_children.psimps)
    qed
  qed
qed

termination counter_cascade_delete
proof (relation "inv_image (less_than <*lex*> less_than)
    (\<lambda>x. case x of Inl (i, mv) \<Rightarrow> (unvisited_count (fst mv) (snd mv), 0::nat)
                 | Inr (cs, mv) \<Rightarrow> (unvisited_count (fst mv) (snd mv), Suc (length cs)))", goal_cases)
  case 1
  show ?case by (intro wf_inv_image wf_lex_prod wf_less_than)
next
  case (2 oid m visited)
  then show ?case by (simp add: unvisited_count_insert)
next
  case (3 child rest m visited x)
  then show ?case by (simp add: unvisited_count_modify)
next
  case (4 child rest m visited x)
  then show ?case
    using cascade_unvisited_le(1)[of child "(x, visited)"]
    by (auto simp: unvisited_count_modify intro: le_imp_less_or_eq)
next
  case (5 child rest m visited x)
  then show ?case by (simp add: unvisited_count_modify)
next
  case (6 child rest m visited)
  then show ?case by simp
qed

text \<open>\<^verbatim>\<open>ReferenceCounter::add_ref\<close> and \<^verbatim>\<open>ReferenceCounter::remove_ref\<close>, on the heap map.\<close>

definition counter_add_ref :: "int \<Rightarrow> int \<Rightarrow> rc_map \<Rightarrow> bool \<times> rc_map" where
  "counter_add_ref from_id to_id m =
     (if \<not> rc_count m from_id \<or> \<not> rc_count m to_id then (False, m)
      else if has_reference_to (rc_at m from_id) to_id then (False, m)
      else (True, rc_modify to_id (\<lambda>ob. ob\<lparr>ref_count := ref_count ob + 1\<rparr>)
                    (rc_modify from_id (add_outgoing_ref to_id) m)))"

definition counter_remove_ref :: "int \<Rightarrow> int \<Rightarrow> rc_map \<Rightarrow> bool \<times> rc_map" where
  "counter_remove_ref from_id to_id m =
     (if \<not> rc_count m to_id then (False, m)
      else if \<not> rc_count m from_id then (False, m)
      else if \<not> has_reference_to (rc_at m from_id) to_id then (False, m)
      else
        let m1 = rc_modify to_id (\<lambda>ob. ob\<lparr>ref_count := ref_count ob - 1\<rparr>)
                   (rc_modify from_id (remove_outgoing_ref to_id) m)
        in if ref_count (rc_at m1 to_id) < 0
           then (False, rc_modify to_id (\<lambda>ob. ob\<lparr>ref_count := 0\<rparr>) m1)
           else if ref_count (rc_at m1 to_id) = 0
           then (True, fst (counter_cascade_delete to_id (m1, {})))
           else (True, m1))"

text \<open>\<^verbatim>\<open>RCHeap\<close>: the heap map and the root set. Each operation returns its flag and the new heap.\<close>

record RCHeap =
  objects :: rc_map
  roots :: "int set"

definition rc_init :: RCHeap where
  "rc_init = \<lparr>objects = [], roots = {}\<rparr>"

definition rc_allocate :: "int \<Rightarrow> RCHeap \<Rightarrow> bool \<times> RCHeap" where
  "rc_allocate oid s =
     (if rc_count (objects s) oid then (False, s)
      else if oid < 0 then (False, s)
      else (True, s\<lparr>objects := objects s @ [(oid, RCObject_new oid)]\<rparr>))"

definition rc_add_root :: "int \<Rightarrow> RCHeap \<Rightarrow> bool \<times> RCHeap" where
  "rc_add_root oid s =
     (if \<not> rc_count (objects s) oid then (False, s)
      else if oid \<in> roots s then (False, s)
      else (True, s\<lparr>roots := insert oid (roots s),
                      objects := rc_modify oid (\<lambda>ob. ob\<lparr>ref_count := ref_count ob + 1\<rparr>)
                                   (objects s)\<rparr>))"

definition rc_remove_root :: "int \<Rightarrow> RCHeap \<Rightarrow> bool \<times> RCHeap" where
  "rc_remove_root oid s =
     (if \<not> rc_count (objects s) oid then (False, s)
      else if oid \<notin> roots s then (False, s)
      else
        let m1 = rc_modify oid (\<lambda>ob. ob\<lparr>ref_count := ref_count ob - 1\<rparr>) (objects s);
            s1 = s\<lparr>roots := roots s - {oid}, objects := m1\<rparr>
        in if ref_count (rc_at m1 oid) < 0
           then (False, s1\<lparr>objects := rc_modify oid (\<lambda>ob. ob\<lparr>ref_count := 0\<rparr>) m1\<rparr>)
           else if ref_count (rc_at m1 oid) = 0
           then (True, s1\<lparr>objects := fst (counter_cascade_delete oid (m1, {}))\<rparr>)
           else (True, s1))"

definition rc_add_ref :: "int \<Rightarrow> int \<Rightarrow> RCHeap \<Rightarrow> bool \<times> RCHeap" where
  "rc_add_ref from_id to_id s =
     (if from_id < 0 \<or> to_id < 0 then (False, s)
      else if \<not> rc_count (objects s) from_id then (False, s)
      else if \<not> rc_count (objects s) to_id then (False, s)
      else if from_id = to_id then (False, s)
      else (case counter_add_ref from_id to_id (objects s) of
              (ok, m') \<Rightarrow> (ok, s\<lparr>objects := m'\<rparr>)))"

definition rc_remove_ref :: "int \<Rightarrow> int \<Rightarrow> RCHeap \<Rightarrow> bool \<times> RCHeap" where
  "rc_remove_ref from_id to_id s =
     (if from_id < 0 \<or> to_id < 0 then (False, s)
      else if \<not> rc_count (objects s) from_id then (False, s)
      else if \<not> rc_count (objects s) to_id then (False, s)
      else (case counter_remove_ref from_id to_id (objects s) of
              (ok, m') \<Rightarrow> (ok, s\<lparr>objects := m'\<rparr>)))"

definition detect_and_log_leaks :: "RCHeap \<Rightarrow> int list" where
  "detect_and_log_leaks s = map fst (filter (\<lambda>(i, ob). ref_count ob > 0) (objects s))"

datatype rc_op =
    RcAllocate int
  | RcAddRoot int
  | RcRemoveRoot int
  | RcAddRef int int
  | RcRemoveRef int int

fun rc_step :: "rc_op \<Rightarrow> RCHeap \<Rightarrow> RCHeap" where
  "rc_step (RcAllocate i) s = snd (rc_allocate i s)"
| "rc_step (RcAddRoot i) s = snd (rc_add_root i s)"
| "rc_step (RcRemoveRoot i) s = snd (rc_remove_root i s)"
| "rc_step (RcAddRef a b) s = snd (rc_add_ref a b s)"
| "rc_step (RcRemoveRef a b) s = snd (rc_remove_ref a b s)"

definition rc_run :: "rc_op list \<Rightarrow> RCHeap \<Rightarrow> RCHeap" where
  "rc_run ops s = fold rc_step ops s"

section \<open>The concrete scenario\<close>

text \<open>
  The scenario as a driver issues it. In the graph-based collectors ids are handed out
  from 0: r = 0, a = 1, b = 2, c = 3. The reference-counting heap takes the ids from the
  scenario, where id 0 stands for the root set: r = 1, a = 2, b = 3, c = 4.
\<close>

definition scenario_ops :: "gc_op list" where
  "scenario_ops =
     [Allocate 64, MakeRoot 0, Allocate 64, Allocate 64, Allocate 64,
      AddReference 0 1, AddReference 1 2, AddReference 2 3, AddReference 3 1,
      RemoveRoot 0]"

definition rc_scenario_ops :: "rc_op list" where
  "rc_scenario_ops =
     [RcAllocate 1, RcAddRoot 1, RcAllocate 2, RcAllocate 3, RcAllocate 4,
      RcAddRef 1 2, RcAddRef 2 3, RcAddRef 3 4, RcAddRef 4 2]"

definition default_gc :: GCState where
  "default_gc = gc_init (1024 * 1024) ((1024 * 1024 * 80) div 100)"

text \<open>
  C1, as stated, fails: in the scenario the Cascade-Deletion collector's \<open>collect\<close> frees
  64 bytes (the unrooted r is an orphan), and the reference-counting heap erases r when
  its root is removed.
\<close>

theorem scenario_cascade_frees_r:
  "fst (cd_collect (cd_run scenario_ops default_gc)) \<noteq> 0
   \<and> \<not> rc_count (objects (snd (rc_remove_root 1 (rc_run rc_scenario_ops rc_init)))) 1"
  by code_simp

text \<open>
  C1, amended: in the scenario Mark-Sweep's \<open>collect\<close> frees 256 bytes and leaves none of
  r, a, b, c alive. Cascade-Deletion's \<open>collect\<close> frees the 64 bytes of r and leaves
  a, b, c alive. The reference-counting heap erases r when its root is removed and keeps
  a, b, c, each with count 1, and the leak detection reports a, b and c, each once and
  nothing else (in the order the heap map iterates, which is left open).
\<close>

theorem scenario_outcome:
  "fst (ms_collect (ms_run scenario_ops default_gc)) = 256
   \<and> map (object_exists (heap (snd (ms_collect (ms_run scenario_ops default_gc))))) [0, 1, 2, 3]
       = [False, False, False, False]
   \<and> map (object_exists (heap (ms_run scenario_ops default_gc))) [0, 1, 2, 3]
       = [True, True, True, True]
   \<and> fst (cd_collect (cd_run scenario_ops default_gc)) = 64
   \<and> map (object_exists (heap (snd (cd_collect (cd_run scenario_ops default_gc))))) [0, 1, 2, 3]
       = [False, True, True, True]
   \<and> fst (rc_remove_root 1 (rc_run rc_scenario_ops rc_init)) = True
   \<and> map (rc_count (objects (snd (rc_remove_root 1 (rc_run rc_scenario_ops rc_init))))) [1, 2, 3, 4]
       = [False, True, True, True]
   \<and> map (\<lambda>i. ref_count (rc_at (objects (snd (rc_remove_root 1 (rc_run rc_scenario_ops rc_init)))) i))
         [2, 3, 4] = [1, 1, 1]
   \<and> set (detect_and_log_leaks (snd (rc_remove_root 1 (rc_run rc_scenario_ops rc_init)))) = {2, 3, 4}
   \<and> length (detect_and_log_leaks (snd (rc_remove_root 1 (rc_run rc_scenario_ops rc_init)))) = 3"
  by code_simp

section \<open>Root toggles on a missing or dead id\<close>

text \<open>
  C10: in the Mark-Sweep and Cascade-Deletion collectors, \<open>make_root\<close> and \<open>remove_root\<close>
  with an id that is missing from the heap or belongs to a dead object leave the state as
  it is. Both return nothing but the state.
\<close>

theorem root_toggle_noop:
  "\<not> object_exists (heap s) i \<Longrightarrow> make_root i s = s \<and> remove_root i s = s"
  by (simp add: make_root_def remove_root_def)

theorem root_toggle_noop_witness:
  "\<not> object_exists (heap (snd (ms_collect (snd (ms_allocate 8 default_gc))))) 0
   \<and> make_root 0 (snd (ms_collect (snd (ms_allocate 8 default_gc))))
       = snd (ms_collect (snd (ms_allocate 8 default_gc)))
   \<and> remove_root 0 (snd (ms_collect (snd (ms_allocate 8 default_gc))))
       = snd (ms_collect (snd (ms_allocate 8 default_gc)))
   \<and> \<not> object_exists (heap default_gc) 7
   \<and> make_root 7 default_gc = default_gc
   \<and> remove_root 7 default_gc = default_gc"
proof -
  have dead: "\<not> object_exists (heap (snd (ms_collect (snd (ms_allocate 8 default_gc))))) 0"
    by code_simp
  have missing: "\<not> object_exists (heap default_gc) 7"
    by code_simp
  show ?thesis
    using dead missing root_toggle_noop [OF dead] root_toggle_noop [OF missing] by simp
qed

section \<open>Well-formed heaps\<close>

definition out_refs :: "heap_map \<Rightarrow> int \<Rightarrow> int set" where
  "out_refs h a = set (outgoing_references (heap_at h a))"

definition in_refs :: "heap_map \<Rightarrow> int \<Rightarrow> int set" where
  "in_refs h b = set (incoming_references (heap_at h b))"

definition wf_heap :: "heap_map \<Rightarrow> bool" where
  "wf_heap h \<longleftrightarrow>
     distinct (map fst h)
     \<and> (\<forall>a b. object_exists h a \<and> b \<in> out_refs h a \<longrightarrow> object_exists h b \<and> a \<in> in_refs h b)
     \<and> (\<forall>a b. object_exists h b \<and> a \<in> in_refs h b \<longrightarrow> object_exists h a \<and> b \<in> out_refs h a)
     \<and> (\<forall>a. object_exists h a \<longrightarrow>
            distinct (outgoing_references (heap_at h a)) \<and> sorted (outgoing_references (heap_at h a))
          \<and> distinct (incoming_references (heap_at h a)) \<and> sorted (incoming_references (heap_at h a)))"

lemma wf_heapD:
  assumes "wf_heap h"
  shows "distinct (map fst h)"
    and "object_exists h a \<Longrightarrow> b \<in> out_refs h a \<Longrightarrow> object_exists h b \<and> a \<in> in_refs h b"
    and "object_exists h b \<Longrightarrow> a \<in> in_refs h b \<Longrightarrow> object_exists h a \<and> b \<in> out_refs h a"
    and "object_exists h a \<Longrightarrow> distinct (outgoing_references (heap_at h a))"
    and "object_exists h a \<Longrightarrow> sorted (outgoing_references (heap_at h a))"
    and "object_exists h a \<Longrightarrow> distinct (incoming_references (heap_at h a))"
    and "object_exists h a \<Longrightarrow> sorted (incoming_references (heap_at h a))"
  using assms unfolding wf_heap_def by blast+

lemma distinct_keys_modify: "distinct (map fst h) \<Longrightarrow> distinct (map fst (heap_modify i f h))"
  by (simp add: heap_modify_def distinct_update)

lemma distinct_keys_modify_each: "distinct (map fst (modify_each f xs h)) = distinct (map fst h)"
  by (simp add: keys_modify_each)

text \<open>The heap after the two detaching loops, object by object.\<close>

lemma heap_at_detach_incoming:
  "heap_at (detach_incoming i h) j =
     (if j \<in> in_refs h i \<and> object_exists h j then remove_reference_to i (heap_at h j) else heap_at h j)"
  by (simp add: detach_incoming_eq heap_at_modify_each in_refs_def)

lemma heap_at_detach_outgoing:
  "heap_at (detach_outgoing i h) j =
     (if j \<in> out_refs h i \<and> object_exists h j then remove_reference_from i (heap_at h j) else heap_at h j)"
  by (simp add: detach_outgoing_eq heap_at_modify_each out_refs_def)

lemma keys_detach [simp]:
  "map fst (detach_incoming i h) = map fst h"
  "map fst (detach_outgoing i h) = map fst h"
  by (simp_all add: detach_incoming_eq detach_outgoing_eq keys_modify_each)

lemma keys_sweep_delete: "object_exists h i \<Longrightarrow> map fst (sweep_delete step i h) = map fst h"
proof -
  assume "object_exists h i"
  then have "object_exists (detach_outgoing i (detach_incoming i h)) i" by simp
  then obtain ob where "map_of (detach_outgoing i (detach_incoming i h)) i = Some ob"
    by (blast dest: object_exists_key)
  then have "map fst (sweep_delete step i h) = map fst (detach_outgoing i (detach_incoming i h))"
    unfolding sweep_delete_def heap_modify_def by (rule update_keys_present)
  then show ?thesis by simp
qed

lemma object_exists_sweep_delete:
  "object_exists (sweep_delete step i h) j = (j \<noteq> i \<and> object_exists h j)"
  by (simp add: sweep_delete_def object_exists_modify)

lemma in_refs_detach_incoming [simp]: "in_refs (detach_incoming i h) j = in_refs h j"
  by (simp add: in_refs_def heap_at_detach_incoming)

lemma out_refs_detach_outgoing [simp]: "out_refs (detach_outgoing i h) j = out_refs h j"
  by (simp add: out_refs_def heap_at_detach_outgoing)

lemma out_refs_detach_incoming:
  "out_refs (detach_incoming i h) j =
     (if j \<in> in_refs h i \<and> object_exists h j then out_refs h j - {i} else out_refs h j)"
  by (simp add: out_refs_def heap_at_detach_incoming)

lemma in_refs_detach_outgoing:
  "in_refs (detach_outgoing i h) j =
     (if j \<in> out_refs h i \<and> object_exists h j then in_refs h j - {i} else in_refs h j)"
  by (simp add: in_refs_def heap_at_detach_outgoing)

lemma out_refs_sweep_delete:
  "out_refs (sweep_delete step i h) j =
     (if j \<in> in_refs h i \<and> object_exists h j then out_refs h j - {i} else out_refs h j)"
  by (simp add: sweep_delete_def out_refs_def heap_at_modify heap_at_detach_outgoing
      heap_at_detach_incoming)

lemma in_refs_sweep_delete:
  "in_refs (sweep_delete step i h) j =
     (if j \<in> out_refs (detach_incoming i h) i \<and> object_exists h j then in_refs h j - {i}
      else in_refs h j)"
  by (simp add: sweep_delete_def in_refs_def out_refs_def heap_at_modify heap_at_detach_outgoing
      heap_at_detach_incoming)

lemma outgoing_sweep_delete:
  "j \<noteq> i \<Longrightarrow> outgoing_references (heap_at (sweep_delete step i h) j) =
     (if j \<in> in_refs h i \<and> object_exists h j then removeAll i (outgoing_references (heap_at h j))
      else outgoing_references (heap_at h j))"
  by (simp add: sweep_delete_def heap_at_modify heap_at_detach_outgoing heap_at_detach_incoming)

lemma incoming_sweep_delete:
  "j \<noteq> i \<Longrightarrow> incoming_references (heap_at (sweep_delete step i h) j) =
     (if j \<in> out_refs (detach_incoming i h) i \<and> object_exists h j
      then removeAll i (incoming_references (heap_at h j))
      else incoming_references (heap_at h j))"
  by (simp add: sweep_delete_def heap_at_modify heap_at_detach_outgoing heap_at_detach_incoming)

lemma sorted_removeAll: "sorted xs \<Longrightarrow> sorted (removeAll (i::int) xs)"
  by (simp add: removeAll_filter_not_eq sorted_wrt_filter)

lemma wf_sweep_delete_out:
  assumes wf: "wf_heap h"
    and a: "object_exists (sweep_delete step i h) a" and b: "b \<in> out_refs (sweep_delete step i h) a"
  shows "object_exists (sweep_delete step i h) b \<and> a \<in> in_refs (sweep_delete step i h) b"
proof -
  from a have a': "a \<noteq> i" "object_exists h a" by (simp_all add: object_exists_sweep_delete)
  from b have b0: "b \<in> out_refs h a" by (simp add: out_refs_sweep_delete split: if_splits)
  with wf a' have b1: "object_exists h b" "a \<in> in_refs h b" by (auto dest: wf_heapD(2))
  have "b \<noteq> i"
  proof
    assume "b = i"
    with b a' b1 show False by (simp add: out_refs_sweep_delete)
  qed
  with b1 a' show ?thesis
    by (simp add: object_exists_sweep_delete in_refs_sweep_delete)
qed

lemma wf_sweep_delete_in:
  assumes wf: "wf_heap h"
    and b: "object_exists (sweep_delete step i h) b" and a: "a \<in> in_refs (sweep_delete step i h) b"
  shows "object_exists (sweep_delete step i h) a \<and> b \<in> out_refs (sweep_delete step i h) a"
proof -
  from b have b': "b \<noteq> i" "object_exists h b" by (simp_all add: object_exists_sweep_delete)
  from a have a0: "a \<in> in_refs h b" by (simp add: in_refs_sweep_delete split: if_splits)
  with wf b' have a1: "object_exists h a" "b \<in> out_refs h a" by (auto dest: wf_heapD(3))
  have "a \<noteq> i"
  proof
    assume ai: "a = i"
    with a1 b' have "b \<in> out_refs (detach_incoming i h) i"
      by (simp add: out_refs_detach_incoming)
    with a b' ai show False by (simp add: in_refs_sweep_delete)
  qed
  with a1 b' show ?thesis
    by (simp add: object_exists_sweep_delete out_refs_sweep_delete)
qed

lemma wf_sweep_delete_lists:
  assumes wf: "wf_heap h" and a: "object_exists (sweep_delete step i h) a"
  shows "distinct (outgoing_references (heap_at (sweep_delete step i h) a))
       \<and> sorted (outgoing_references (heap_at (sweep_delete step i h) a))
       \<and> distinct (incoming_references (heap_at (sweep_delete step i h) a))
       \<and> sorted (incoming_references (heap_at (sweep_delete step i h) a))"
proof -
  from a have a': "a \<noteq> i" "object_exists h a" by (simp_all add: object_exists_sweep_delete)
  from wf a' have d: "distinct (outgoing_references (heap_at h a))" "sorted (outgoing_references (heap_at h a))"
     "distinct (incoming_references (heap_at h a))" "sorted (incoming_references (heap_at h a))"
    by (auto dest: wf_heapD)
  show ?thesis
    using d a'(1) by (simp add: outgoing_sweep_delete incoming_sweep_delete sorted_removeAll distinct_removeAll)
qed

lemma wf_heap_sweep_delete:
  assumes wf: "wf_heap h" and ex: "object_exists h i"
  shows "wf_heap (sweep_delete step i h)"
proof -
  have "distinct (map fst (sweep_delete step i h))"
    using wf ex by (simp add: keys_sweep_delete wf_heapD(1))
  then show ?thesis
    unfolding wf_heap_def
    using wf_sweep_delete_out[OF wf] wf_sweep_delete_in[OF wf] wf_sweep_delete_lists[OF wf]
    by blast
qed

lemma wf_heap_cong:
  assumes "distinct (map fst h') = distinct (map fst h)"
    and "\<And>j. object_exists h' j = object_exists h j"
    and "\<And>j. outgoing_references (heap_at h' j) = outgoing_references (heap_at h j)"
    and "\<And>j. incoming_references (heap_at h' j) = incoming_references (heap_at h j)"
  shows "wf_heap h' = wf_heap h"
  unfolding wf_heap_def out_refs_def in_refs_def using assms by simp

lemma object_exists_alive [simp]: "object_exists h i \<Longrightarrow> is_alive (heap_at h i)"
  by (auto dest: object_exists_key)

lemma wf_heap_modify_flags:
  assumes "object_exists h i"
    and "\<And>ob. is_alive (f ob) = is_alive ob"
    and "\<And>ob. outgoing_references (f ob) = outgoing_references ob"
    and "\<And>ob. incoming_references (f ob) = incoming_references ob"
  shows "wf_heap (heap_modify i f h) = wf_heap h"
proof (rule wf_heap_cong)
  from assms(1) obtain ob where "map_of h i = Some ob" by (blast dest: object_exists_key)
  then show "distinct (map fst (heap_modify i f h)) = distinct (map fst h)"
    by (simp add: heap_modify_def update_keys_present)
qed (use assms in \<open>auto simp: object_exists_modify heap_at_modify object_exists_alive\<close>)

lemma wf_state_make_root_heap: "wf_heap (heap s) \<Longrightarrow> wf_heap (heap (make_root i s))"
  by (simp add: make_root_def wf_heap_modify_flags)

lemma wf_state_remove_root_heap: "wf_heap (heap s) \<Longrightarrow> wf_heap (heap (remove_root i s))"
  by (simp add: remove_root_def wf_heap_modify_flags)

text \<open>Adding and removing one edge between alive objects.\<close>

lemma set_set_insert [simp]: "set (set_insert x xs) = insert x (set xs)"
  by (auto simp: set_insert_def set_insort_key)

lemma distinct_set_insert: "distinct xs \<Longrightarrow> distinct (set_insert x xs)"
  by (simp add: set_insert_def distinct_insort)

lemma sorted_set_insert: "sorted xs \<Longrightarrow> sorted (set_insert x xs)"
  by (simp add: set_insert_def sorted_insort)

lemma add_edge_exists [simp]:
  "object_exists h a \<Longrightarrow> object_exists h b \<Longrightarrow>
   object_exists (heap_modify b (add_reference_from a) (heap_modify a (add_reference_to b) h)) j
     = object_exists h j"
  by (auto simp: object_exists_modify heap_at_modify add_reference_from_def add_reference_to_def)

lemma add_edge_out:
  "out_refs (heap_modify b (add_reference_from a) (heap_modify a (add_reference_to b) h)) j
     = (if j = a then insert b (out_refs h a) else out_refs h j)"
  by (auto simp: out_refs_def heap_at_modify add_reference_from_def add_reference_to_def)

lemma add_edge_in:
  "in_refs (heap_modify b (add_reference_from a) (heap_modify a (add_reference_to b) h)) j
     = (if j = b then insert a (in_refs h b) else in_refs h j)"
  by (auto simp: in_refs_def heap_at_modify add_reference_from_def add_reference_to_def)

lemma add_edge_lists:
  assumes "distinct (outgoing_references (heap_at h j))" "sorted (outgoing_references (heap_at h j))"
    "distinct (incoming_references (heap_at h j))" "sorted (incoming_references (heap_at h j))"
  shows "distinct (outgoing_references (heap_at (heap_modify b (add_reference_from a) (heap_modify a (add_reference_to b) h)) j))
      \<and> sorted (outgoing_references (heap_at (heap_modify b (add_reference_from a) (heap_modify a (add_reference_to b) h)) j))
      \<and> distinct (incoming_references (heap_at (heap_modify b (add_reference_from a) (heap_modify a (add_reference_to b) h)) j))
      \<and> sorted (incoming_references (heap_at (heap_modify b (add_reference_from a) (heap_modify a (add_reference_to b) h)) j))"
  using assms
  by (auto simp: heap_at_modify add_reference_from_def add_reference_to_def
      distinct_set_insert sorted_set_insert)

lemma wf_heap_add_edge:
  assumes wf: "wf_heap h" and a: "object_exists h a" and b: "object_exists h b"
  shows "wf_heap (heap_modify b (add_reference_from a) (heap_modify a (add_reference_to b) h))"
    (is "wf_heap ?h'")
proof -
  have dk: "distinct (map fst ?h')"
    using wf by (simp add: distinct_keys_modify wf_heapD(1))
  have o: "\<And>x y. object_exists ?h' x \<and> y \<in> out_refs ?h' x \<longrightarrow> object_exists ?h' y \<and> x \<in> in_refs ?h' y"
    using a b wf_heapD(2)[OF wf] by (auto simp: add_edge_out add_edge_in split: if_splits)
  have i: "\<And>x y. object_exists ?h' y \<and> x \<in> in_refs ?h' y \<longrightarrow> object_exists ?h' x \<and> y \<in> out_refs ?h' x"
    using a b wf_heapD(3)[OF wf] by (auto simp: add_edge_out add_edge_in split: if_splits)
  have l: "\<And>x. object_exists ?h' x \<longrightarrow>
            distinct (outgoing_references (heap_at ?h' x)) \<and> sorted (outgoing_references (heap_at ?h' x))
          \<and> distinct (incoming_references (heap_at ?h' x)) \<and> sorted (incoming_references (heap_at ?h' x))"
    using a b wf_heapD(4-7)[OF wf] add_edge_lists by simp
  show ?thesis unfolding wf_heap_def using dk o i l by blast
qed

lemma wf_heap_add_reference: "wf_heap (heap s) \<Longrightarrow> wf_heap (heap (snd (add_reference a b s)))"
  by (simp add: add_reference_def wf_heap_add_edge)

lemma remove_edge_exists [simp]:
  "object_exists h a \<Longrightarrow> object_exists h b \<Longrightarrow>
   object_exists (remove_edge a b h) j = object_exists h j"
  by (auto simp: remove_edge_def object_exists_modify heap_at_modify)

lemma remove_edge_out:
  "out_refs (remove_edge a b h) j = (if j = a then out_refs h a - {b} else out_refs h j)"
  by (auto simp: remove_edge_def out_refs_def heap_at_modify)

lemma remove_edge_in:
  "in_refs (remove_edge a b h) j = (if j = b then in_refs h b - {a} else in_refs h j)"
  by (auto simp: remove_edge_def in_refs_def heap_at_modify)

lemma remove_edge_lists:
  assumes "distinct (outgoing_references (heap_at h j))" "sorted (outgoing_references (heap_at h j))"
    "distinct (incoming_references (heap_at h j))" "sorted (incoming_references (heap_at h j))"
  shows "distinct (outgoing_references (heap_at (remove_edge a b h) j))
      \<and> sorted (outgoing_references (heap_at (remove_edge a b h) j))
      \<and> distinct (incoming_references (heap_at (remove_edge a b h) j))
      \<and> sorted (incoming_references (heap_at (remove_edge a b h) j))"
  using assms
  by (auto simp: remove_edge_def heap_at_modify distinct_removeAll sorted_removeAll)

lemma wf_heap_remove_edge:
  assumes wf: "wf_heap h" and a: "object_exists h a" and b: "object_exists h b"
  shows "wf_heap (remove_edge a b h)" (is "wf_heap ?h'")
proof -
  have dk: "distinct (map fst ?h')"
    using wf by (simp add: remove_edge_def distinct_keys_modify wf_heapD(1))
  have o: "\<And>x y. object_exists ?h' x \<and> y \<in> out_refs ?h' x \<longrightarrow> object_exists ?h' y \<and> x \<in> in_refs ?h' y"
    using a b wf_heapD(2)[OF wf] by (auto simp: remove_edge_out remove_edge_in split: if_splits)
  have i: "\<And>x y. object_exists ?h' y \<and> x \<in> in_refs ?h' y \<longrightarrow> object_exists ?h' x \<and> y \<in> out_refs ?h' x"
    using a b wf_heapD(3)[OF wf] by (auto simp: remove_edge_out remove_edge_in split: if_splits)
  have l: "\<And>x. object_exists ?h' x \<longrightarrow>
            distinct (outgoing_references (heap_at ?h' x)) \<and> sorted (outgoing_references (heap_at ?h' x))
          \<and> distinct (incoming_references (heap_at ?h' x)) \<and> sorted (incoming_references (heap_at ?h' x))"
    using a b wf_heapD(4-7)[OF wf] remove_edge_lists by simp
  show ?thesis unfolding wf_heap_def using dk o i l by blast
qed

lemma wf_heap_ms_remove_reference:
  "wf_heap (heap s) \<Longrightarrow> wf_heap (heap (snd (ms_remove_reference a b s)))"
  by (simp add: ms_remove_reference_def wf_heap_remove_edge)

section \<open>The mark phase changes mark flags only\<close>

declare dfs_mark.simps [simp del]

definition unmark_all :: "heap_map \<Rightarrow> heap_map" where
  "unmark_all h = map (\<lambda>(i, ob). (i, unmark ob)) h"

lemma keys_unmark_all [simp]: "map fst (unmark_all h) = map fst h"
  by (induction h) (auto simp: unmark_all_def)

lemma map_of_unmark_all: "map_of (unmark_all h) i = map_option unmark (map_of h i)"
  by (induction h) (auto simp: unmark_all_def)

lemma unmark_default [simp]: "unmark HeapObject_default = HeapObject_default"
  by (simp add: unmark_def HeapObject_default_def)

lemma heap_at_unmark_all: "heap_at (unmark_all h) i = unmark (heap_at h i)"
  by (simp add: heap_at_def map_of_unmark_all split: option.splits)

lemma unmark_fields [simp]:
  "is_alive (unmark ob) = is_alive ob"
  "is_root (unmark ob) = is_root ob"
  "obj_size (unmark ob) = obj_size ob"
  "collection_step (unmark ob) = collection_step ob"
  "outgoing_references (unmark ob) = outgoing_references ob"
  "incoming_references (unmark ob) = incoming_references ob"
  "is_marked (unmark ob) = False"
  by (simp_all add: unmark_def)

lemma object_exists_unmark_all [simp]: "object_exists (unmark_all h) i = object_exists h i"
  by (simp add: object_exists_def map_of_unmark_all split: option.splits)

lemma unmark_all_idem [simp]: "unmark_all (unmark_all h) = unmark_all h"
  by (induction h) (auto simp: unmark_all_def unmark_def)

text \<open>Two heaps that differ in mark flags only agree on everything else.\<close>

lemma same_but_marks:
  assumes "unmark_all h' = unmark_all h"
  shows "map fst h' = map fst h"
    and "object_exists h' i = object_exists h i"
    and "is_alive (heap_at h' i) = is_alive (heap_at h i)"
    and "is_root (heap_at h' i) = is_root (heap_at h i)"
    and "obj_size (heap_at h' i) = obj_size (heap_at h i)"
    and "collection_step (heap_at h' i) = collection_step (heap_at h i)"
    and "outgoing_references (heap_at h' i) = outgoing_references (heap_at h i)"
    and "incoming_references (heap_at h' i) = incoming_references (heap_at h i)"
proof -
  show "map fst h' = map fst h"
    using assms keys_unmark_all by metis
  show "object_exists h' i = object_exists h i"
    using assms object_exists_unmark_all by metis
  have u: "unmark (heap_at h' i) = unmark (heap_at h i)"
    using assms heap_at_unmark_all by metis
  show "is_alive (heap_at h' i) = is_alive (heap_at h i)"
    using u unmark_fields(1) by metis
  show "is_root (heap_at h' i) = is_root (heap_at h i)"
    using u unmark_fields(2) by metis
  show "obj_size (heap_at h' i) = obj_size (heap_at h i)"
    using u unmark_fields(3) by metis
  show "collection_step (heap_at h' i) = collection_step (heap_at h i)"
    using u unmark_fields(4) by metis
  show "outgoing_references (heap_at h' i) = outgoing_references (heap_at h i)"
    using u unmark_fields(5) by metis
  show "incoming_references (heap_at h' i) = incoming_references (heap_at h i)"
    using u unmark_fields(6) by metis
qed

lemma unmark_all_update_mark:
  "map_of h i = Some ob \<Longrightarrow> unmark_all (AList.update i (ob\<lparr>is_marked := b\<rparr>) h) = unmark_all h"
  by (induction h) (auto simp: unmark_all_def unmark_def split: if_splits)

lemma unmark_all_modify_mark:
  "object_exists h i \<Longrightarrow> unmark_all (heap_modify i (\<lambda>ob. ob\<lparr>is_marked := True\<rparr>) h) = unmark_all h"
  by (auto simp: heap_modify_def unmark_all_update_mark dest!: object_exists_key)

text \<open>Every outgoing edge of an alive object leads to an alive object.\<close>

definition targets_alive :: "heap_map \<Rightarrow> bool" where
  "targets_alive h \<longleftrightarrow> (\<forall>a b. object_exists h a \<and> b \<in> out_refs h a \<longrightarrow> object_exists h b)"

lemma wf_heap_targets_alive: "wf_heap h \<Longrightarrow> targets_alive h"
  unfolding targets_alive_def by (blast dest: wf_heapD(2))

lemma targets_alive_same:
  "unmark_all h' = unmark_all h \<Longrightarrow> targets_alive h' = targets_alive h"
  unfolding targets_alive_def out_refs_def
  by (simp add: same_but_marks(2)[of h' h] same_but_marks(7)[of h' h])

lemma dfs_marks_only:
  "targets_alive h \<Longrightarrow> unmark_all (dfs_mark i h) = unmark_all h"
  "targets_alive h \<Longrightarrow> \<forall>t \<in> set ts. object_exists h t \<Longrightarrow> unmark_all (dfs_targets ts h) = unmark_all h"
proof (induction i h and ts h rule: dfs_mark_dfs_targets.induct)
  case (1 object_id h)
  show ?case
  proof (cases "object_exists h object_id \<and> \<not> is_marked (heap_at h object_id)")
    case False
    then show ?thesis by (auto simp: dfs_mark.simps)
  next
    case True
    let ?h1 = "heap_modify object_id (\<lambda>ob. ob\<lparr>is_marked := True\<rparr>) h"
    have e1: "unmark_all ?h1 = unmark_all h" using True by (simp add: unmark_all_modify_mark)
    then have t1: "targets_alive ?h1" using "1.prems" targets_alive_same[of ?h1 h] by simp
    have "\<forall>t \<in> set (outgoing_references (heap_at h object_id)). object_exists ?h1 t"
      using "1.prems" True unfolding targets_alive_def out_refs_def
      by (auto simp: same_but_marks(2)[OF e1])
    then have "unmark_all (dfs_targets (outgoing_references (heap_at h object_id)) ?h1) = unmark_all ?h1"
      using "1.IH" True t1 by simp
    with e1 True show ?thesis by (simp add: dfs_mark.simps)
  qed
next
  case (2 h)
  show ?case by simp
next
  case (3 target_id rest h)
  from "3.prems" obtain ob where ob: "map_of h target_id = Some ob"
    by (auto dest: object_exists_key)
  show ?case
  proof (cases "is_marked ob")
    case True
    then show ?thesis using 3 ob by simp
  next
    case False
    have e1: "unmark_all (dfs_mark target_id h) = unmark_all h"
      using "3.IH"(2)[OF ob _ "3.prems"(1)] False by simp
    then have t1: "targets_alive (dfs_mark target_id h)"
      using "3.prems"(1) targets_alive_same[of "dfs_mark target_id h" h] by simp
    have "\<forall>t \<in> set rest. object_exists (dfs_mark target_id h) t"
      using "3.prems"(2) by (simp add: same_but_marks(2)[OF e1])
    then have "unmark_all (dfs_targets rest (dfs_mark target_id h)) = unmark_all (dfs_mark target_id h)"
      using "3.IH"(3)[OF ob _ t1] False by simp
    with e1 ob False show ?thesis by simp
  qed
qed

lemma fold_dfs_marks_only:
  "targets_alive h \<Longrightarrow> unmark_all (fold dfs_mark rs h) = unmark_all h"
proof (induction rs arbitrary: h)
  case Nil
  show ?case by simp
next
  case (Cons r rs)
  have e: "unmark_all (dfs_mark r h) = unmark_all h" using Cons.prems by (rule dfs_marks_only(1))
  then have "targets_alive (dfs_mark r h)"
    using Cons.prems targets_alive_same[of "dfs_mark r h" h] by simp
  then have "unmark_all (fold dfs_mark rs (dfs_mark r h)) = unmark_all (dfs_mark r h)" by (rule Cons.IH)
  with e show ?case by simp
qed

lemma mark_phase_eq:
  "mark_phase h = fold dfs_mark (get_root_objects (unmark_all h)) (unmark_all h)"
  by (simp add: mark_phase_def unmark_all_def Let_def)

lemma mark_phase_marks_only:
  assumes "targets_alive h"
  shows "unmark_all (mark_phase h) = unmark_all h"
proof -
  have "targets_alive (unmark_all h)"
    using assms targets_alive_same[of "unmark_all h" h] by simp
  then have "unmark_all (fold dfs_mark (get_root_objects (unmark_all h)) (unmark_all h)) = unmark_all (unmark_all h)"
    by (rule fold_dfs_marks_only)
  then show ?thesis by (simp add: mark_phase_eq)
qed

lemma wf_heap_same:
  assumes "unmark_all h' = unmark_all h"
  shows "wf_heap h' = wf_heap h"
  by (rule wf_heap_cong) (simp_all add: same_but_marks[OF assms])

lemma wf_heap_mark_phase: "wf_heap h \<Longrightarrow> wf_heap (mark_phase h)"
  using wf_heap_same[OF mark_phase_marks_only] wf_heap_targets_alive by blast

section \<open>Deleting objects\<close>

text \<open>
  \<open>kills step h h'\<close>: the heap \<open>h'\<close> has the keys of \<open>h\<close>; no object has come to life;
  root flags and sizes are those of \<open>h\<close>; every object that was alive and is
  not was not a root and carries \<open>step\<close> as its collection step; every other object has
  kept its collection step.
\<close>

definition kills :: "int \<Rightarrow> heap_map \<Rightarrow> heap_map \<Rightarrow> bool" where
  "kills step h h' \<longleftrightarrow>
     map fst h' = map fst h
     \<and> (\<forall>j. (object_exists h' j \<longrightarrow> object_exists h j)
            \<and> is_root (heap_at h' j) = is_root (heap_at h j)
            \<and> obj_size (heap_at h' j) = obj_size (heap_at h j)
            \<and> (object_exists h j \<and> \<not> object_exists h' j \<longrightarrow>
                  \<not> is_root (heap_at h j) \<and> collection_step (heap_at h' j) = step)
            \<and> (object_exists h' j = object_exists h j \<longrightarrow>
                  collection_step (heap_at h' j) = collection_step (heap_at h j)))"

lemma kills_refl: "kills step h h"
  by (simp add: kills_def)

lemma kills_trans: "kills step h h1 \<Longrightarrow> kills step h1 h2 \<Longrightarrow> kills step h h2"
  unfolding kills_def by (intro conjI allI; metis)

lemma flags_sweep_delete:
  "is_root (heap_at (sweep_delete step i h) j) = is_root (heap_at h j)"
  "obj_size (heap_at (sweep_delete step i h) j) = obj_size (heap_at h j)"
  "is_marked (heap_at (sweep_delete step i h) j) = is_marked (heap_at h j)"
  "collection_step (heap_at (sweep_delete step i h) j) =
     (if j = i then step else collection_step (heap_at h j))"
  by (simp_all add: sweep_delete_def heap_at_modify heap_at_detach_outgoing heap_at_detach_incoming)

lemma kills_sweep_delete:
  assumes "object_exists h i" and "\<not> is_root (heap_at h i)"
  shows "kills step h (sweep_delete step i h)"
  unfolding kills_def
  using assms by (auto simp: keys_sweep_delete object_exists_sweep_delete flags_sweep_delete)



lemma kills_keys: "kills step h h' \<Longrightarrow> map fst h' = map fst h"
  by (simp add: kills_def)

lemma kills_root_survives:
  "kills step h h' \<Longrightarrow> object_exists h j \<Longrightarrow> is_root (heap_at h j) \<Longrightarrow>
   object_exists h' j \<and> is_root (heap_at h' j)"
  unfolding kills_def by metis

subsection \<open>The sweep\<close>

lemma snd_sweep_fold:
  "snd (fold (\<lambda>i (freed, h). let h1 = sweep_delete step i h
                              in (freed + obj_size (heap_at h1 i), h1)) xs (f, h))
     = fold (sweep_delete step) xs h"
  by (induction xs arbitrary: f h) (simp_all add: Let_def)

lemma heap_sweep_phase:
  "heap (snd (sweep_phase s)) = fold (sweep_delete (current_step s)) (sweep_candidates (heap s)) (heap s)"
proof -
  have "heap (snd (sweep_phase s)) =
     snd (fold (\<lambda>i (freed, h). let h1 = sweep_delete (current_step s) i h
                              in (freed + obj_size (heap_at h1 i), h1))
            (sweep_candidates (heap s)) (0, heap s))"
    by (simp add: sweep_phase_def Let_def split_beta)
  then show ?thesis by (simp add: snd_sweep_fold)
qed

lemma fold_sweep_delete:
  assumes "wf_heap h" and "distinct xs"
    and "\<forall>x \<in> set xs. object_exists h x \<and> \<not> is_root (heap_at h x)"
  shows "wf_heap (fold (sweep_delete step) xs h)
       \<and> kills step h (fold (sweep_delete step) xs h)
       \<and> (\<forall>j. object_exists (fold (sweep_delete step) xs h) j = (object_exists h j \<and> j \<notin> set xs))"
  using assms
proof (induction xs arbitrary: h)
  case Nil
  then show ?case by (simp add: kills_refl)
next
  case (Cons x xs)
  let ?h1 = "sweep_delete step x h"
  from Cons.prems have x: "object_exists h x" "\<not> is_root (heap_at h x)" by simp_all
  have wf1: "wf_heap ?h1" using Cons.prems(1) x(1) by (rule wf_heap_sweep_delete)
  have k1: "kills step h ?h1" using x by (rule kills_sweep_delete)
  have rest: "\<forall>y \<in> set xs. object_exists ?h1 y \<and> \<not> is_root (heap_at ?h1 y)"
    using Cons.prems(2,3) by (auto simp: object_exists_sweep_delete flags_sweep_delete)
  from Cons.prems(2) have "distinct xs" by simp
  from Cons.IH[OF wf1 this rest]
  have ih: "wf_heap (fold (sweep_delete step) xs ?h1)"
    "kills step ?h1 (fold (sweep_delete step) xs ?h1)"
    "\<And>j. object_exists (fold (sweep_delete step) xs ?h1) j = (object_exists ?h1 j \<and> j \<notin> set xs)"
    by blast+
  have "kills step h (fold (sweep_delete step) xs ?h1)"
    using k1 ih(2) by (rule kills_trans)
  moreover have "\<forall>j. object_exists (fold (sweep_delete step) xs ?h1) j
      = (object_exists h j \<and> j \<notin> set (x # xs))"
    by (auto simp: ih(3) object_exists_sweep_delete)
  ultimately show ?case using ih(1) by simp
qed

lemma heap_at_entry: "distinct (map fst h) \<Longrightarrow> (i, ob) \<in> set h \<Longrightarrow> heap_at h i = ob"
  by (simp add: heap_at_def)

lemma object_exists_entry:
  "distinct (map fst h) \<Longrightarrow> (i, ob) \<in> set h \<Longrightarrow> object_exists h i = is_alive ob"
  by (simp add: object_exists_def)

lemma object_exists_has_entry: "object_exists h i \<Longrightarrow> (i, heap_at h i) \<in> set h"
  by (auto dest!: object_exists_key map_of_SomeD)

lemma set_filter_keys:
  assumes "distinct (map fst h)"
  shows "set (map fst (filter (\<lambda>(i, ob). is_alive ob \<and> P ob) h))
           = {i. object_exists h i \<and> P (heap_at h i)}"
proof (intro set_eqI iffI)
  fix i
  assume "i \<in> set (map fst (filter (\<lambda>(i, ob). is_alive ob \<and> P ob) h))"
  then obtain ob where "(i, ob) \<in> set h" "is_alive ob" "P ob" by auto
  then show "i \<in> {i. object_exists h i \<and> P (heap_at h i)}"
    using assms by (simp add: heap_at_entry object_exists_entry)
next
  fix i
  assume "i \<in> {i. object_exists h i \<and> P (heap_at h i)}"
  then have "(i, heap_at h i) \<in> set h" "is_alive (heap_at h i)" "P (heap_at h i)"
    by (simp_all add: object_exists_has_entry)
  then have "(i, heap_at h i) \<in> set (filter (\<lambda>(i, ob). is_alive ob \<and> P ob) h)" by simp
  then have "fst (i, heap_at h i) \<in> fst ` set (filter (\<lambda>(i, ob). is_alive ob \<and> P ob) h)"
    by (rule imageI)
  then show "i \<in> set (map fst (filter (\<lambda>(i, ob). is_alive ob \<and> P ob) h))"
    by simp
qed

lemma distinct_filter_keys:
  "distinct (map fst h) \<Longrightarrow> distinct (map fst (filter Q h))"
  by (simp add: distinct_map_filter)

lemma sweep_candidates_eq:
  "sweep_candidates h =
     map fst (filter (\<lambda>(i, ob). is_alive ob \<and> (\<not> is_marked ob \<and> \<not> is_root ob)) h)"
  unfolding sweep_candidates_def
  by (rule arg_cong[where f = "map fst"], rule filter_cong) auto

lemma set_sweep_candidates:
  "distinct (map fst h) \<Longrightarrow>
   set (sweep_candidates h) =
     {i. object_exists h i \<and> \<not> is_marked (heap_at h i) \<and> \<not> is_root (heap_at h i)}"
  unfolding sweep_candidates_eq
  by (rule set_filter_keys[where P = "\<lambda>ob. \<not> is_marked ob \<and> \<not> is_root ob"])

lemma sweep_phase_facts:
  assumes "wf_heap (heap s)"
  shows "wf_heap (heap (snd (sweep_phase s)))"
    and "kills (current_step s) (heap s) (heap (snd (sweep_phase s)))"
    and "object_exists (heap (snd (sweep_phase s))) j =
           (object_exists (heap s) j \<and> (is_marked (heap_at (heap s) j) \<or> is_root (heap_at (heap s) j)))"
proof -
  have dk: "distinct (map fst (heap s))" using assms by (rule wf_heapD(1))
  have d: "distinct (sweep_candidates (heap s))"
    unfolding sweep_candidates_def using dk by (rule distinct_filter_keys)
  have c: "\<forall>x \<in> set (sweep_candidates (heap s)). object_exists (heap s) x \<and> \<not> is_root (heap_at (heap s) x)"
    by (simp add: set_sweep_candidates[OF dk])
  note f = fold_sweep_delete[OF assms d c, of "current_step s"]
  show "wf_heap (heap (snd (sweep_phase s)))" using f by (simp add: heap_sweep_phase)
  show "kills (current_step s) (heap s) (heap (snd (sweep_phase s)))"
    using f by (simp add: heap_sweep_phase)
  show "object_exists (heap (snd (sweep_phase s))) j =
           (object_exists (heap s) j \<and> (is_marked (heap_at (heap s) j) \<or> is_root (heap_at (heap s) j)))"
    using f by (auto simp: heap_sweep_phase set_sweep_candidates[OF dk])
qed

lemma sweep_phase_other_fields:
  "next_object_id (snd (sweep_phase s)) = next_object_id s"
  "max_heap_size (snd (sweep_phase s)) = max_heap_size s"
  "current_step (snd (sweep_phase s)) = current_step s"
  by (simp_all add: sweep_phase_def Let_def split_beta)

lemma ms_collect_heap:
  "heap (snd (ms_collect s)) = heap (snd (sweep_phase (s\<lparr>heap := mark_phase (heap s)\<rparr>)))"
  by (simp add: ms_collect_def Let_def split_beta)

lemma ms_collect_other_fields:
  "next_object_id (snd (ms_collect s)) = next_object_id s"
  "max_heap_size (snd (ms_collect s)) = max_heap_size s"
  "current_step (snd (ms_collect s)) = current_step s"
  "collection_count (snd (ms_collect s)) = collection_count s + 1"
  by (simp_all add: ms_collect_def Let_def split_beta sweep_phase_def)

lemma kills_same:
  assumes "unmark_all h' = unmark_all h"
  shows "kills step h h'"
  unfolding kills_def by (simp add: same_but_marks[OF assms])

lemma ms_collect_facts:
  assumes "wf_heap (heap s)"
  shows "wf_heap (heap (snd (ms_collect s)))"
    and "kills (current_step s) (heap s) (heap (snd (ms_collect s)))"
proof -
  let ?s1 = "s\<lparr>heap := mark_phase (heap s)\<rparr>"
  have e: "unmark_all (mark_phase (heap s)) = unmark_all (heap s)"
    using assms by (simp add: mark_phase_marks_only wf_heap_targets_alive)
  have wf1: "wf_heap (heap ?s1)" using assms by (simp add: wf_heap_mark_phase)
  show "wf_heap (heap (snd (ms_collect s)))"
    using sweep_phase_facts(1)[OF wf1] by (simp add: ms_collect_heap)
  have "kills (current_step s) (heap s) (mark_phase (heap s))" using e by (rule kills_same)
  moreover have "kills (current_step s) (mark_phase (heap s)) (heap (snd (sweep_phase ?s1)))"
    using sweep_phase_facts(2)[OF wf1] by simp
  ultimately show "kills (current_step s) (heap s) (heap (snd (ms_collect s)))"
    unfolding ms_collect_heap by (rule kills_trans)
qed

subsection \<open>The cascade\<close>

declare cascade_loop.simps [simp del]

lemma cascade_loop_facts:
  "wf_heap h \<Longrightarrow>
     wf_heap (fst (cascade_loop step queue processed h freed n))
     \<and> kills step h (fst (cascade_loop step queue processed h freed n))"
proof (induction step queue processed h freed n rule: cascade_loop.induct)
  case (1 step processed h freed n)
  then show ?case by (simp add: kills_refl cascade_loop.simps)
next
  case (2 step current_id queue processed h freed n)
  show ?case
  proof (cases "current_id \<in> processed")
    case True
    then show ?thesis using 2 by (simp add: cascade_loop.simps)
  next
    case np: False
    show ?thesis
    proof (cases "object_exists h current_id \<and> \<not> is_root (heap_at h current_id)")
      case False
      then show ?thesis using 2 np by (auto simp: cascade_loop.simps)
    next
      case True
      let ?h1 = "sweep_delete step current_id h"
      have wf1: "wf_heap ?h1" using "2.prems" True by (simp add: wf_heap_sweep_delete)
      have k1: "kills step h ?h1" using True by (simp add: kills_sweep_delete)
      have eq: "cascade_loop step (current_id # queue) processed h freed n =
          cascade_loop step (snd (cascade_kill step current_id (h, queue)))
            (insert current_id processed) ?h1
            (freed + obj_size (heap_at ?h1 current_id)) (n + 1)"
        using np True by (simp add: fst_cascade_kill cascade_loop.simps)
      have ih: "wf_heap (fst (cascade_loop step (snd (cascade_kill step current_id (h, queue)))
            (insert current_id processed) ?h1
            (freed + obj_size (heap_at ?h1 current_id)) (n + 1)))
          \<and> kills step ?h1 (fst (cascade_loop step (snd (cascade_kill step current_id (h, queue)))
            (insert current_id processed) ?h1
            (freed + obj_size (heap_at ?h1 current_id)) (n + 1)))"
        using "2.IH"(4) np True wf1 by (simp add: fst_cascade_kill)
      show ?thesis unfolding eq using ih k1 kills_trans by blast
    qed
  qed
qed

lemma cascade_delete_heap:
  "heap (snd (cascade_delete i s)) =
     (if object_exists (heap s) i
      then fst (cascade_loop (current_step s) [i] {} (heap s) 0 0) else heap s)"
  by (simp add: cascade_delete_def split_beta)

lemma cascade_delete_other_fields:
  "next_object_id (snd (cascade_delete i s)) = next_object_id s"
  "max_heap_size (snd (cascade_delete i s)) = max_heap_size s"
  "current_step (snd (cascade_delete i s)) = current_step s"
  "collection_count (snd (cascade_delete i s)) = collection_count s"
  by (simp_all add: cascade_delete_def split_beta)

lemma cascade_delete_facts:
  assumes "wf_heap (heap s)"
  shows "wf_heap (heap (snd (cascade_delete i s)))"
    and "kills (current_step s) (heap s) (heap (snd (cascade_delete i s)))"
  using assms cascade_loop_facts[of "heap s" "current_step s" "[i]" "{}" 0 0]
  by (simp_all add: cascade_delete_heap kills_refl)

lemma cd_remove_reference_facts:
  assumes "wf_heap (heap s)"
  shows "wf_heap (heap (snd (cd_remove_reference a b s)))"
proof (cases "object_exists (heap s) a \<and> object_exists (heap s) b
    \<and> b \<in> set (outgoing_references (heap_at (heap s) a))")
  case False
  then show ?thesis using assms by (auto simp: cd_remove_reference_def)
next
  case True
  let ?s1 = "s\<lparr>heap := remove_edge a b (heap s)\<rparr>"
  have wf1: "wf_heap (heap ?s1)" using assms True by (simp add: wf_heap_remove_edge)
  then have "wf_heap (heap (snd (cascade_delete b ?s1)))" by (rule cascade_delete_facts(1))
  with wf1 True show ?thesis by (simp add: cd_remove_reference_def Let_def)
qed

text \<open>The batch loop of \<open>cd_collect\<close> over the orphans found by the scan.\<close>

definition collect_orphans :: "int list \<Rightarrow> size_t \<times> GCState \<Rightarrow> size_t \<times> GCState" where
  "collect_orphans orphans fs =
     fold (\<lambda>orphan_id (freed, s').
             if object_exists (heap s') orphan_id
             then let (f, s'') = cascade_delete orphan_id s' in (freed + f, s'')
             else (freed, s'))
       orphans fs"

lemma collect_orphans_Nil: "collect_orphans [] fs = fs"
  by (simp add: collect_orphans_def)

lemma collect_orphans_Cons:
  "collect_orphans (x # xs) (f, s) =
     collect_orphans xs (if object_exists (heap s) x
                         then (f + fst (cascade_delete x s), snd (cascade_delete x s)) else (f, s))"
  by (simp add: collect_orphans_def split_beta)

lemma collect_orphans_facts:
  "wf_heap (heap s) \<Longrightarrow>
     wf_heap (heap (snd (collect_orphans xs (f, s))))
     \<and> kills (current_step s) (heap s) (heap (snd (collect_orphans xs (f, s))))
     \<and> next_object_id (snd (collect_orphans xs (f, s))) = next_object_id s
     \<and> max_heap_size (snd (collect_orphans xs (f, s))) = max_heap_size s
     \<and> current_step (snd (collect_orphans xs (f, s))) = current_step s"
proof (induction xs arbitrary: f s)
  case Nil
  then show ?case by (simp add: collect_orphans_Nil kills_refl)
next
  case (Cons x xs)
  show ?case
  proof (cases "object_exists (heap s) x")
    case False
    then show ?thesis using Cons by (simp add: collect_orphans_Cons)
  next
    case True
    let ?s1 = "snd (cascade_delete x s)"
    have wf1: "wf_heap (heap ?s1)" using Cons.prems by (rule cascade_delete_facts(1))
    have k1: "kills (current_step s) (heap s) (heap ?s1)"
      using Cons.prems by (rule cascade_delete_facts(2))
    note ih = Cons.IH[OF wf1, of "f + fst (cascade_delete x s)"]
    have "kills (current_step s) (heap s)
        (heap (snd (collect_orphans xs (f + fst (cascade_delete x s), ?s1))))"
      using k1 ih kills_trans by (simp add: cascade_delete_other_fields)
    then show ?thesis using True ih
      by (simp add: collect_orphans_Cons cascade_delete_other_fields)
  qed
qed

lemma cd_collect_eq:
  "cd_collect s =
     (fst (collect_orphans (find_orphans (heap s)) (0, s)),
      (snd (collect_orphans (find_orphans (heap s)) (0, s)))
        \<lparr>collection_count := collection_count (snd (collect_orphans (find_orphans (heap s)) (0, s))) + 1,
         total_memory_freed := total_memory_freed (snd (collect_orphans (find_orphans (heap s)) (0, s)))
                                 + fst (collect_orphans (find_orphans (heap s)) (0, s))\<rparr>)"
  by (simp add: cd_collect_def collect_orphans_def Let_def split_beta)

lemma cd_collect_facts:
  assumes "wf_heap (heap s)"
  shows "wf_heap (heap (snd (cd_collect s)))"
    and "kills (current_step s) (heap s) (heap (snd (cd_collect s)))"
  using collect_orphans_facts[OF assms, of "find_orphans (heap s)" 0]
  by (simp_all add: cd_collect_eq)

lemma cd_collect_other_fields:
  "next_object_id (snd (cd_collect s)) = next_object_id s"
  "max_heap_size (snd (cd_collect s)) = max_heap_size s"
  "current_step (snd (cd_collect s)) = current_step s"
proof -
  have kr: "\<And>xs f s. next_object_id (snd (collect_orphans xs (f, s))) = next_object_id s
     \<and> max_heap_size (snd (collect_orphans xs (f, s))) = max_heap_size s
     \<and> current_step (snd (collect_orphans xs (f, s))) = current_step s"
  proof -
    fix xs f s
    show "next_object_id (snd (collect_orphans xs (f, s))) = next_object_id s
     \<and> max_heap_size (snd (collect_orphans xs (f, s))) = max_heap_size s
     \<and> current_step (snd (collect_orphans xs (f, s))) = current_step s"
      by (induction xs arbitrary: f s)
        (simp_all add: collect_orphans_Nil collect_orphans_Cons cascade_delete_other_fields)
  qed
  show "next_object_id (snd (cd_collect s)) = next_object_id s"
    "max_heap_size (snd (cd_collect s)) = max_heap_size s"
    "current_step (snd (cd_collect s)) = current_step s"
    using kr[of "find_orphans (heap s)" 0 s] by (simp_all add: cd_collect_eq)
qed

section \<open>Reachable states\<close>

definition ids_bounded :: "GCState \<Rightarrow> bool" where
  "ids_bounded s \<longleftrightarrow>
     0 \<le> next_object_id s \<and> (\<forall>i \<in> set (map fst (heap s)). 0 \<le> i \<and> i < next_object_id s)"

definition wf_state :: "GCState \<Rightarrow> bool" where
  "wf_state s \<longleftrightarrow> wf_heap (heap s) \<and> ids_bounded s"

lemma wf_state_init: "wf_state (gc_init m t)"
  by (simp add: wf_state_def wf_heap_def ids_bounded_def gc_init_def object_exists_def)

lemma object_exists_in_keys: "object_exists h i \<Longrightarrow> i \<in> set (map fst h)"
  using object_exists_has_entry by force

lemma heap_at_update: "heap_at (AList.update i ob h) j = (if j = i then ob else heap_at h j)"
  by (simp add: heap_at_def update_conv)

lemma object_exists_update:
  "object_exists (AList.update i ob h) j = (if j = i then is_alive ob else object_exists h j)"
  by (simp add: object_exists_def update_conv)

lemma keys_update_fresh: "i \<notin> set (map fst h) \<Longrightarrow> map fst (AList.update i ob h) = map fst h @ [i]"
  by (induction h) auto

lemma wf_heap_new_object:
  assumes wf: "wf_heap h" and fresh: "i \<notin> set (map fst h)"
    and ob: "outgoing_references ob = []" "incoming_references ob = []"
  shows "wf_heap (AList.update i ob h)" (is "wf_heap ?h'")
proof -
  have ni: "\<And>j. object_exists h j \<Longrightarrow> j \<noteq> i"
    using fresh object_exists_in_keys by blast
  have dk: "distinct (map fst ?h')" using wf by (simp add: distinct_update wf_heapD(1))
  have o: "\<And>x y. object_exists ?h' x \<and> y \<in> out_refs ?h' x \<longrightarrow> object_exists ?h' y \<and> x \<in> in_refs ?h' y"
    using wf_heapD(2)[OF wf] ni ob
    by (auto simp: object_exists_update out_refs_def in_refs_def heap_at_update split: if_splits)
  have i: "\<And>x y. object_exists ?h' y \<and> x \<in> in_refs ?h' y \<longrightarrow> object_exists ?h' x \<and> y \<in> out_refs ?h' x"
    using wf_heapD(3)[OF wf] ni ob
    by (auto simp: object_exists_update out_refs_def in_refs_def heap_at_update split: if_splits)
  have l: "\<And>x. object_exists ?h' x \<longrightarrow>
            distinct (outgoing_references (heap_at ?h' x)) \<and> sorted (outgoing_references (heap_at ?h' x))
          \<and> distinct (incoming_references (heap_at ?h' x)) \<and> sorted (incoming_references (heap_at ?h' x))"
    using wf_heapD(4-7)[OF wf] ob by (auto simp: object_exists_update heap_at_update)
  show ?thesis unfolding wf_heap_def using dk o i l by blast
qed

text \<open>What \<open>allocate\<close> needs of the \<open>collect\<close> it calls.\<close>

definition collect_ok :: "(GCState \<Rightarrow> size_t \<times> GCState) \<Rightarrow> bool" where
  "collect_ok collect \<longleftrightarrow>
     (\<forall>s. wf_heap (heap s) \<longrightarrow>
        wf_heap (heap (snd (collect s)))
        \<and> kills (current_step s) (heap s) (heap (snd (collect s)))
        \<and> next_object_id (snd (collect s)) = next_object_id s
        \<and> max_heap_size (snd (collect s)) = max_heap_size s
        \<and> current_step (snd (collect s)) = current_step s)"

lemma collect_ok_ms: "collect_ok ms_collect"
  unfolding collect_ok_def by (simp add: ms_collect_facts ms_collect_other_fields)

lemma collect_ok_cd: "collect_ok cd_collect"
  unfolding collect_ok_def by (simp add: cd_collect_facts cd_collect_other_fields)

lemma collect_okD:
  assumes "collect_ok collect" "wf_heap (heap s)"
  shows "wf_heap (heap (snd (collect s)))"
    and "kills (current_step s) (heap s) (heap (snd (collect s)))"
    and "next_object_id (snd (collect s)) = next_object_id s"
    and "max_heap_size (snd (collect s)) = max_heap_size s"
    and "current_step (snd (collect s)) = current_step s"
  using assms unfolding collect_ok_def by blast+

text \<open>The state in which \<open>allocate\<close> makes its second memory check.\<close>

definition after_pressure :: "(GCState \<Rightarrow> size_t \<times> GCState) \<Rightarrow> size_t \<Rightarrow> GCState \<Rightarrow> GCState" where
  "after_pressure collect sz s = (if \<not> has_enough_memory s sz then snd (collect s) else s)"

definition place_object :: "size_t \<Rightarrow> GCState \<Rightarrow> GCState" where
  "place_object sz s =
     s\<lparr>next_object_id := next_object_id s + 1,
       heap := AList.update (next_object_id s)
                 ((HeapObject_new (next_object_id s) sz False)\<lparr>allocation_step := current_step s\<rparr>)
                 (heap s)\<rparr>"

lemma allocate_with_eq:
  "allocate_with collect sz s =
     (if sz = 0 \<or> sz > max_heap_size s then (- 1, s)
      else if \<not> has_enough_memory (after_pressure collect sz s) sz
           then (- 1, after_pressure collect sz s)
           else (next_object_id (after_pressure collect sz s),
                 place_object sz (after_pressure collect sz s)))"
  by (simp add: allocate_with_def after_pressure_def place_object_def Let_def)

lemma after_pressure_facts:
  assumes "collect_ok collect" "wf_state s"
  shows "wf_state (after_pressure collect sz s)"
    and "kills (current_step s) (heap s) (heap (after_pressure collect sz s))"
    and "next_object_id (after_pressure collect sz s) = next_object_id s"
    and "current_step (after_pressure collect sz s) = current_step s"
    and "max_heap_size (after_pressure collect sz s) = max_heap_size s"
proof -
  have wf: "wf_heap (heap s)" using assms(2) by (simp add: wf_state_def)
  note c = collect_okD[OF assms(1) wf]
  show k: "kills (current_step s) (heap s) (heap (after_pressure collect sz s))"
    using c(2) by (simp add: after_pressure_def kills_refl)
  show n: "next_object_id (after_pressure collect sz s) = next_object_id s"
    using c(3) by (simp add: after_pressure_def)
  show "current_step (after_pressure collect sz s) = current_step s"
    using c(5) by (simp add: after_pressure_def)
  show "max_heap_size (after_pressure collect sz s) = max_heap_size s"
    using c(4) by (simp add: after_pressure_def)
  have "wf_heap (heap (after_pressure collect sz s))"
    using c(1) wf by (simp add: after_pressure_def)
  moreover have "ids_bounded (after_pressure collect sz s)"
    using assms(2) n kills_keys[OF k] by (simp add: wf_state_def ids_bounded_def)
  ultimately show "wf_state (after_pressure collect sz s)" by (simp add: wf_state_def)
qed

lemma next_id_fresh: "ids_bounded s \<Longrightarrow> next_object_id s \<notin> set (map fst (heap s))"
  unfolding ids_bounded_def by fastforce

lemma wf_state_place_object:
  assumes "wf_state s"
  shows "wf_state (place_object sz s)"
proof -
  from assms have wf: "wf_heap (heap s)" and ib: "ids_bounded s" by (simp_all add: wf_state_def)
  have fresh: "next_object_id s \<notin> set (map fst (heap s))" using ib by (rule next_id_fresh)
  have "wf_heap (heap (place_object sz s))"
    unfolding place_object_def using wf fresh
    by (simp add: wf_heap_new_object HeapObject_new_def)
  moreover have "ids_bounded (place_object sz s)"
    using ib fresh unfolding ids_bounded_def place_object_def
    by (auto simp: keys_update_fresh)
  ultimately show ?thesis by (simp add: wf_state_def)
qed

lemma wf_state_allocate_with:
  assumes "collect_ok collect" "wf_state s"
  shows "wf_state (snd (allocate_with collect sz s))"
  using assms after_pressure_facts(1)[OF assms, of sz]
  by (simp add: allocate_with_eq wf_state_place_object)

lemma keys_heap_modify_exists: "object_exists h i \<Longrightarrow> map fst (heap_modify i f h) = map fst h"
  by (simp add: keys_modify_present object_exists_in_keys[simplified])

lemma keys_add_reference: "map fst (heap (snd (add_reference a b s))) = map fst (heap s)"
  by (simp add: add_reference_def keys_heap_modify_exists object_exists_modify add_reference_to_def)

lemma keys_remove_edge:
  "object_exists h a \<Longrightarrow> object_exists h b \<Longrightarrow> map fst (remove_edge a b h) = map fst h"
  by (simp add: remove_edge_def keys_heap_modify_exists object_exists_modify)

lemma keys_make_root: "map fst (heap (make_root i s)) = map fst (heap s)"
  by (simp add: make_root_def keys_heap_modify_exists)

lemma keys_remove_root: "map fst (heap (remove_root i s)) = map fst (heap s)"
  by (simp add: remove_root_def keys_heap_modify_exists)

lemma next_id_simple_ops [simp]:
  "next_object_id (snd (add_reference a b s)) = next_object_id s"
  "next_object_id (snd (ms_remove_reference a b s)) = next_object_id s"
  "next_object_id (make_root i s) = next_object_id s"
  "next_object_id (remove_root i s) = next_object_id s"
  by (simp_all add: add_reference_def ms_remove_reference_def make_root_def remove_root_def)

lemma keys_ms_remove_reference:
  "map fst (heap (snd (ms_remove_reference a b s))) = map fst (heap s)"
  by (simp add: ms_remove_reference_def keys_remove_edge)

lemma cd_remove_reference_keys_next:
  assumes "wf_heap (heap s)"
  shows "map fst (heap (snd (cd_remove_reference a b s))) = map fst (heap s)"
    and "next_object_id (snd (cd_remove_reference a b s)) = next_object_id s"
proof -
  show "next_object_id (snd (cd_remove_reference a b s)) = next_object_id s"
    by (simp add: cd_remove_reference_def Let_def cascade_delete_other_fields)
  show "map fst (heap (snd (cd_remove_reference a b s))) = map fst (heap s)"
  proof (cases "object_exists (heap s) a \<and> object_exists (heap s) b
      \<and> b \<in> set (outgoing_references (heap_at (heap s) a))")
    case False
    then show ?thesis by (auto simp: cd_remove_reference_def)
  next
    case True
    let ?s1 = "s\<lparr>heap := remove_edge a b (heap s)\<rparr>"
    have wf1: "wf_heap (heap ?s1)" using assms True by (simp add: wf_heap_remove_edge)
    have "map fst (heap (snd (cascade_delete b ?s1))) = map fst (heap ?s1)"
      using cascade_delete_facts(2)[OF wf1] by (rule kills_keys)
    then show ?thesis using True by (simp add: cd_remove_reference_def Let_def keys_remove_edge)
  qed
qed

lemma wf_state_ms_step: "wf_state s \<Longrightarrow> wf_state (ms_step op s)"
proof (cases op)
  case (Allocate sz)
  assume "wf_state s"
  then show ?thesis using Allocate collect_ok_ms
    by (simp add: ms_allocate_def wf_state_allocate_with)
next
  case (AddReference a b)
  assume "wf_state s"
  then show ?thesis using AddReference
    by (simp add: wf_state_def ids_bounded_def wf_heap_add_reference keys_add_reference)
next
  case (RemoveReference a b)
  assume "wf_state s"
  then show ?thesis using RemoveReference
    by (simp add: wf_state_def ids_bounded_def wf_heap_ms_remove_reference keys_ms_remove_reference)
next
  case Collect
  assume "wf_state s"
  then show ?thesis using Collect kills_keys[OF ms_collect_facts(2), of s]
    by (simp add: wf_state_def ids_bounded_def ms_collect_facts(1) ms_collect_other_fields)
next
  case (MakeRoot i)
  assume "wf_state s"
  then show ?thesis using MakeRoot
    by (simp add: wf_state_def ids_bounded_def wf_state_make_root_heap keys_make_root)
next
  case (RemoveRoot i)
  assume "wf_state s"
  then show ?thesis using RemoveRoot
    by (simp add: wf_state_def ids_bounded_def wf_state_remove_root_heap keys_remove_root)
next
  case (SetCurrentStep n)
  assume "wf_state s"
  then show ?thesis using SetCurrentStep by (simp add: wf_state_def ids_bounded_def)
qed

lemma wf_state_cd_step: "wf_state s \<Longrightarrow> wf_state (cd_step op s)"
proof (cases op)
  case (Allocate sz)
  assume "wf_state s"
  then show ?thesis using Allocate collect_ok_cd
    by (simp add: cd_allocate_def wf_state_allocate_with)
next
  case (AddReference a b)
  assume "wf_state s"
  then show ?thesis using AddReference
    by (simp add: wf_state_def ids_bounded_def wf_heap_add_reference keys_add_reference)
next
  case (RemoveReference a b)
  assume "wf_state s"
  then show ?thesis using RemoveReference
    by (simp add: wf_state_def ids_bounded_def cd_remove_reference_facts cd_remove_reference_keys_next)
next
  case Collect
  assume "wf_state s"
  then show ?thesis using Collect kills_keys[OF cd_collect_facts(2), of s]
    by (simp add: wf_state_def ids_bounded_def cd_collect_facts(1) cd_collect_other_fields)
next
  case (MakeRoot i)
  assume "wf_state s"
  then show ?thesis using MakeRoot
    by (simp add: wf_state_def ids_bounded_def wf_state_make_root_heap keys_make_root)
next
  case (RemoveRoot i)
  assume "wf_state s"
  then show ?thesis using RemoveRoot
    by (simp add: wf_state_def ids_bounded_def wf_state_remove_root_heap keys_remove_root)
next
  case (SetCurrentStep n)
  assume "wf_state s"
  then show ?thesis using SetCurrentStep by (simp add: wf_state_def ids_bounded_def)
qed

lemma wf_state_ms_run: "wf_state s \<Longrightarrow> wf_state (ms_run ops s)"
  unfolding ms_run_def by (induction ops arbitrary: s) (simp_all add: wf_state_ms_step)

lemma wf_state_cd_run: "wf_state s \<Longrightarrow> wf_state (cd_run ops s)"
  unfolding cd_run_def by (induction ops arbitrary: s) (simp_all add: wf_state_cd_step)

section \<open>Edge symmetry\<close>

definition edge_symmetric :: "heap_map \<Rightarrow> bool" where
  "edge_symmetric h \<longleftrightarrow>
     (\<forall>a b. object_exists h a \<and> object_exists h b \<longrightarrow> (b \<in> out_refs h a \<longleftrightarrow> a \<in> in_refs h b))
     \<and> (\<forall>b. object_exists h b \<longrightarrow>
           get_incoming_reference_count (heap_at h b)
             = int (card {x. object_exists h x \<and> b \<in> out_refs h x}))"

lemma wf_heap_edge_symmetric:
  assumes "wf_heap h"
  shows "edge_symmetric h"
  unfolding edge_symmetric_def
proof (intro conjI allI impI)
  fix a b
  assume "object_exists h a \<and> object_exists h b"
  then show "(b \<in> out_refs h a) = (a \<in> in_refs h b)"
    using wf_heapD(2,3)[OF assms] by blast
next
  fix b
  assume b: "object_exists h b"
  have "in_refs h b = {x. object_exists h x \<and> b \<in> out_refs h x}"
    using wf_heapD(2,3)[OF assms] b by blast
  moreover have "card (in_refs h b) = length (incoming_references (heap_at h b))"
    unfolding in_refs_def using wf_heapD(6)[OF assms b] by (rule distinct_card)
  ultimately show "get_incoming_reference_count (heap_at h b)
      = int (card {x. object_exists h x \<and> b \<in> out_refs h x})"
    by (simp add: get_incoming_reference_count_def)
qed

text \<open>
  C9: after every sequence of public operations of the Mark-Sweep collector and of the
  Cascade-Deletion collector, for alive objects a and b the edge a \<rightarrow> b is in a's outgoing
  set iff a is in b's incoming set, and every alive object's incoming count is the number
  of alive objects that hold it in their outgoing set.
\<close>

theorem edge_symmetry_reachable:
  "edge_symmetric (heap (ms_run ops (gc_init m t)))
   \<and> edge_symmetric (heap (cd_run ops (gc_init m t)))"
proof -
  have "wf_state (ms_run ops (gc_init m t))" "wf_state (cd_run ops (gc_init m t))"
    by (simp_all add: wf_state_ms_run wf_state_cd_run wf_state_init)
  then show ?thesis by (simp add: wf_state_def wf_heap_edge_symmetric)
qed

theorem edge_symmetry_reachable_witness:
  "object_exists (heap (ms_run scenario_ops default_gc)) 3
   \<and> object_exists (heap (ms_run scenario_ops default_gc)) 1
   \<and> 1 \<in> out_refs (heap (ms_run scenario_ops default_gc)) 3
   \<and> 3 \<in> in_refs (heap (ms_run scenario_ops default_gc)) 1
   \<and> get_incoming_reference_count (heap_at (heap (ms_run scenario_ops default_gc)) 1) = 2
   \<and> int (card {x. object_exists (heap (ms_run scenario_ops default_gc)) x
                    \<and> 1 \<in> out_refs (heap (ms_run scenario_ops default_gc)) x}) = 2"
proof -
  let ?h = "heap (ms_run scenario_ops default_gc)"
  have ex: "object_exists ?h 3" "object_exists ?h 1" "1 \<in> out_refs ?h 3"
    by code_simp+
  have cnt: "get_incoming_reference_count (heap_at ?h 1) = 2"
    by code_simp
  have es: "edge_symmetric ?h"
    using edge_symmetry_reachable[of scenario_ops "1024 * 1024" "(1024 * 1024 * 80) div 100"]
    unfolding default_gc_def by blast
  have "3 \<in> in_refs ?h 1"
    using es ex unfolding edge_symmetric_def by blast
  moreover have "int (card {x. object_exists ?h x \<and> 1 \<in> out_refs ?h x}) = 2"
    using es ex(2) cnt unfolding edge_symmetric_def by metis
  ultimately show ?thesis using ex cnt by blast
qed

section \<open>Allocation\<close>

lemma update_fresh_append: "i \<notin> set (map fst h) \<Longrightarrow> AList.update i ob h = h @ [(i, ob)]"
  by (induction h) auto

text \<open>
  C7: in a state reached by any operation sequence of either graph-based collector,
  \<open>allocate\<close> with size 0 or a size above the capacity returns \<open>- 1\<close> and the state as it
  was. With a valid size, the memory check is made on the state itself when it has
  enough free memory and otherwise on the state after one \<open>collect\<close>, which creates no
  object; if that check fails the result is \<open>- 1\<close> and that state, with no object
  added; otherwise the result is the id counter's value, which is non-negative and the
  key of no object dead or alive, and the new object is added under it.
\<close>

theorem allocate_contract:
  assumes "(collect = ms_collect \<and> s = ms_run ops (gc_init m t))
         \<or> (collect = cd_collect \<and> s = cd_run ops (gc_init m t))"
  shows "(sz = 0 \<or> sz > max_heap_size s \<longrightarrow> allocate_with collect sz s = (- 1, s))
    \<and> (sz \<noteq> 0 \<and> sz \<le> max_heap_size s \<longrightarrow>
         (let s1 = (if has_enough_memory s sz then s else snd (collect s)) in
            map fst (heap s1) = map fst (heap s)
            \<and> (\<not> has_enough_memory s1 sz \<longrightarrow> allocate_with collect sz s = (- 1, s1))
            \<and> (has_enough_memory s1 sz \<longrightarrow>
                 fst (allocate_with collect sz s) = next_object_id s
                 \<and> 0 \<le> next_object_id s
                 \<and> next_object_id s \<notin> set (map fst (heap s))
                 \<and> next_object_id (snd (allocate_with collect sz s)) = next_object_id s + 1
                 \<and> heap (snd (allocate_with collect sz s)) =
                     heap s1 @ [(next_object_id s,
                                 (HeapObject_new (next_object_id s) sz False)
                                   \<lparr>allocation_step := current_step s\<rparr>)])))"
proof -
  from assms have ok: "collect_ok collect" and wf: "wf_state s"
    using collect_ok_ms collect_ok_cd wf_state_ms_run wf_state_cd_run wf_state_init by auto
  let ?s1 = "after_pressure collect sz s"
  have s1: "?s1 = (if has_enough_memory s sz then s else snd (collect s))"
    by (simp add: after_pressure_def)
  note ap = after_pressure_facts[OF ok wf, of sz]
  have keys: "map fst (heap ?s1) = map fst (heap s)" using ap(2) by (rule kills_keys)
  from wf have ib: "ids_bounded s" by (simp add: wf_state_def)
  then have nn: "0 \<le> next_object_id s" by (simp add: ids_bounded_def)
  have fresh: "next_object_id s \<notin> set (map fst (heap s))" using ib by (rule next_id_fresh)
  have fresh1: "next_object_id ?s1 \<notin> set (map fst (heap ?s1))"
    using fresh keys ap(3) by simp
  have upd: "\<And>ob. AList.update (next_object_id ?s1) ob (heap ?s1) = heap ?s1 @ [(next_object_id ?s1, ob)]"
    using fresh1 by (simp add: update_fresh_append)
  have place: "heap (place_object sz ?s1) =
      heap ?s1 @ [(next_object_id s, (HeapObject_new (next_object_id s) sz False)\<lparr>allocation_step := current_step s\<rparr>)]"
    "next_object_id (place_object sz ?s1) = next_object_id s + 1"
    using upd ap(3,4) by (simp_all add: place_object_def)
  show ?thesis
    unfolding s1[symmetric] Let_def
    using keys nn fresh place ap(3) by (auto simp: allocate_with_eq)
qed

theorem allocate_contract_witness:
  "\<not> has_enough_memory (ms_run [Allocate 60] (gc_init 100 80)) 60
   \<and> has_enough_memory (snd (ms_collect (ms_run [Allocate 60] (gc_init 100 80)))) 60
   \<and> fst (allocate_with ms_collect 60 (ms_run [Allocate 60] (gc_init 100 80))) = 1
   \<and> map fst (heap (snd (allocate_with ms_collect 60 (ms_run [Allocate 60] (gc_init 100 80))))) = [0, 1]
   \<and> allocate_with ms_collect 0 (ms_run [Allocate 60] (gc_init 100 80))
       = (- 1, ms_run [Allocate 60] (gc_init 100 80))
   \<and> allocate_with ms_collect 101 (ms_run [Allocate 60] (gc_init 100 80))
       = (- 1, ms_run [Allocate 60] (gc_init 100 80))"
proof -
  let ?s = "ms_run [Allocate 60] (gc_init 100 80)"
  have a: "(ms_collect = ms_collect \<and> ?s = ms_run [Allocate 60] (gc_init 100 80))
         \<or> (ms_collect = cd_collect \<and> ?s = cd_run [Allocate 60] (gc_init 100 80))"
    by simp
  have h: "\<not> has_enough_memory ?s 60" "has_enough_memory (snd (ms_collect ?s)) 60"
    "next_object_id ?s = 1" "max_heap_size ?s = 100"
    "map fst (heap (snd (ms_collect ?s))) = [0]"
    by code_simp+
  have v: "(60::size_t) \<noteq> 0 \<and> (60::size_t) \<le> 100" "(101::size_t) > 100" by simp_all
  note c60 = allocate_contract[OF a, of 60]
  note c0 = allocate_contract[OF a, of 0]
  note c101 = allocate_contract[OF a, of 101]
  have "fst (allocate_with ms_collect 60 ?s) = 1"
    "map fst (heap (snd (allocate_with ms_collect 60 ?s))) = [0, 1]"
    using c60 h v(1) by (simp_all add: Let_def)
  moreover have "allocate_with ms_collect 0 ?s = (- 1, ?s)" using c0 by simp
  moreover have "allocate_with ms_collect 101 ?s = (- 1, ?s)" using c101 h(4) v(2) by simp
  ultimately show ?thesis using h(1,2) by blast
qed

section \<open>Adding an edge that exists\<close>

text \<open>
  C3, as stated, fails for the reference-counting heap: \<open>add_ref\<close> on an edge that
  exists returns \<open>False\<close>.
\<close>

theorem rc_add_existing_edge_fails:
  "rc_count (objects (rc_run [RcAllocate 1, RcAllocate 2, RcAddRef 1 2] rc_init)) 1
   \<and> rc_count (objects (rc_run [RcAllocate 1, RcAllocate 2, RcAddRef 1 2] rc_init)) 2
   \<and> has_reference_to (rc_at (objects (rc_run [RcAllocate 1, RcAllocate 2, RcAddRef 1 2] rc_init)) 1) 2
   \<and> \<not> fst (rc_add_ref 1 2 (rc_run [RcAllocate 1, RcAllocate 2, RcAddRef 1 2] rc_init))"
  by code_simp

lemma add_reference_existing:
  assumes "object_exists (heap s) a" "object_exists (heap s) b"
    and "b \<in> set (outgoing_references (heap_at (heap s) a))"
  shows "add_reference a b s = (True, s)"
  using assms by (simp add: add_reference_def)

lemma rc_add_ref_existing:
  assumes "has_reference_to (rc_at (objects r) a) b"
  shows "rc_add_ref a b r = (False, r)"
  using assms by (simp add: rc_add_ref_def counter_add_ref_def)

lemma funpow_fixed: "f x = x \<Longrightarrow> (f ^^ n) x = x"
  by (induction n) simp_all

text \<open>
  C3, amended: in the Mark-Sweep and Cascade-Deletion collectors, \<open>add_reference\<close> on an
  edge that exists between alive objects returns success and leaves the whole state as
  it is, the first time and after any number of repetitions. In the reference-counting
  heap, \<open>add_ref\<close> on an edge that exists returns failure and leaves the whole state as
  it is, the first time and after any number of repetitions.
\<close>

theorem add_existing_edge:
  "(object_exists (heap s) a \<and> object_exists (heap s) b
      \<and> b \<in> set (outgoing_references (heap_at (heap s) a))
    \<longrightarrow> add_reference a b s = (True, s)
        \<and> add_reference a b (((\<lambda>x. snd (add_reference a b x)) ^^ n) s) = (True, s))
   \<and> (rc_count (objects r) a \<and> rc_count (objects r) b \<and> has_reference_to (rc_at (objects r) a) b
    \<longrightarrow> rc_add_ref a b r = (False, r)
        \<and> rc_add_ref a b (((\<lambda>x. snd (rc_add_ref a b x)) ^^ n) r) = (False, r))"
proof (intro conjI impI)
  assume h: "object_exists (heap s) a \<and> object_exists (heap s) b
      \<and> b \<in> set (outgoing_references (heap_at (heap s) a))"
  then show e: "add_reference a b s = (True, s)" by (simp add: add_reference_existing)
  then have "((\<lambda>x. snd (add_reference a b x)) ^^ n) s = s" by (simp add: funpow_fixed)
  with e show "add_reference a b (((\<lambda>x. snd (add_reference a b x)) ^^ n) s) = (True, s)" by simp
next
  assume h: "rc_count (objects r) a \<and> rc_count (objects r) b \<and> has_reference_to (rc_at (objects r) a) b"
  then show e: "rc_add_ref a b r = (False, r)" by (simp add: rc_add_ref_existing)
  then have "((\<lambda>x. snd (rc_add_ref a b x)) ^^ n) r = r" by (simp add: funpow_fixed)
  with e show "rc_add_ref a b (((\<lambda>x. snd (rc_add_ref a b x)) ^^ n) r) = (False, r)" by simp
qed

theorem add_existing_edge_witness:
  "object_exists (heap (ms_run scenario_ops default_gc)) 1
   \<and> object_exists (heap (ms_run scenario_ops default_gc)) 2
   \<and> 2 \<in> set (outgoing_references (heap_at (heap (ms_run scenario_ops default_gc)) 1))
   \<and> add_reference 1 2 (ms_run scenario_ops default_gc) = (True, ms_run scenario_ops default_gc)
   \<and> add_reference 1 2 (((\<lambda>x. snd (add_reference 1 2 x)) ^^ 5) (ms_run scenario_ops default_gc))
        = (True, ms_run scenario_ops default_gc)
   \<and> rc_count (objects (rc_run rc_scenario_ops rc_init)) 2
   \<and> rc_count (objects (rc_run rc_scenario_ops rc_init)) 3
   \<and> has_reference_to (rc_at (objects (rc_run rc_scenario_ops rc_init)) 2) 3
   \<and> rc_add_ref 2 3 (rc_run rc_scenario_ops rc_init) = (False, rc_run rc_scenario_ops rc_init)
   \<and> rc_add_ref 2 3 (((\<lambda>x. snd (rc_add_ref 2 3 x)) ^^ 5) (rc_run rc_scenario_ops rc_init))
        = (False, rc_run rc_scenario_ops rc_init)"
proof -
  have g: "object_exists (heap (ms_run scenario_ops default_gc)) 1
     \<and> object_exists (heap (ms_run scenario_ops default_gc)) 2
     \<and> 2 \<in> set (outgoing_references (heap_at (heap (ms_run scenario_ops default_gc)) 1))"
    by code_simp
  have r: "rc_count (objects (rc_run rc_scenario_ops rc_init)) 2
     \<and> rc_count (objects (rc_run rc_scenario_ops rc_init)) 3
     \<and> has_reference_to (rc_at (objects (rc_run rc_scenario_ops rc_init)) 2) 3"
    by code_simp
  show ?thesis
    using g r
      add_existing_edge[where s = "ms_run scenario_ops default_gc" and a = 1 and b = 2 and n = 5]
      add_existing_edge[where r = "rc_run rc_scenario_ops rc_init" and a = 2 and b = 3 and n = 5]
    by blast
qed

section \<open>The mark phase marks what the roots reach\<close>

text \<open>
  The graph of a heap: an edge from a to b for every b in the outgoing set stored under
  a. An object is reachable when a path of such edges leads to it from an alive root.
\<close>

definition heap_edges :: "heap_map \<Rightarrow> (int \<times> int) set" where
  "heap_edges h = {(a, b). b \<in> out_refs h a}"

definition alive_roots :: "heap_map \<Rightarrow> int set" where
  "alive_roots h = {r. object_exists h r \<and> is_root (heap_at h r)}"

definition reachable_from_roots :: "heap_map \<Rightarrow> int set" where
  "reachable_from_roots h = (heap_edges h)\<^sup>* `` alive_roots h"

definition marked_set :: "heap_map \<Rightarrow> int set" where
  "marked_set h = {i. object_exists h i \<and> is_marked (heap_at h i)}"

text \<open>
  What one traversal adds to the marked set: it loses no mark, every newly marked
  object has all its successors marked, and every newly marked object is reached from
  the start set.
\<close>

definition dfs_post :: "(int \<times> int) set \<Rightarrow> int set \<Rightarrow> int set \<Rightarrow> int set \<Rightarrow> bool" where
  "dfs_post E M M' S \<longleftrightarrow>
     M \<subseteq> M' \<and> (\<forall>y \<in> M' - M. E `` {y} \<subseteq> M') \<and> M' - M \<subseteq> E\<^sup>* `` S"

lemma dfs_post_refl: "dfs_post E M M S"
  by (simp add: dfs_post_def)

lemma dfs_post_trans:
  assumes "dfs_post E M M1 S1" "dfs_post E M1 M2 S2"
  shows "dfs_post E M M2 (S1 \<union> S2)"
  using assms unfolding dfs_post_def by blast

lemma dfs_post_mono: "dfs_post E M M' S \<Longrightarrow> S \<subseteq> T \<Longrightarrow> dfs_post E M M' T"
  unfolding dfs_post_def by blast

lemma dfs_post_node:
  assumes p: "dfs_post E (insert i M) M' (E `` {i})" and s: "E `` {i} \<subseteq> M'"
  shows "dfs_post E M M' {i}"
  unfolding dfs_post_def
proof (intro conjI ballI)
  show "M \<subseteq> M'" using p unfolding dfs_post_def by blast
next
  fix y assume "y \<in> M' - M"
  then show "E `` {y} \<subseteq> M'" using p s unfolding dfs_post_def by blast
next
  have "E\<^sup>* `` (E `` {i}) \<subseteq> E\<^sup>* `` {i}"
    by (auto intro: converse_rtrancl_into_rtrancl)
  moreover have "i \<in> E\<^sup>* `` {i}" by simp
  moreover have "M' - M \<subseteq> insert i (M' - insert i M)" by blast
  ultimately show "M' - M \<subseteq> E\<^sup>* `` {i}" using p unfolding dfs_post_def by blast
qed

lemma marked_set_mark:
  "object_exists h i \<Longrightarrow>
   marked_set (heap_modify i (\<lambda>ob. ob\<lparr>is_marked := True\<rparr>) h) = insert i (marked_set h)"
  by (auto simp: marked_set_def object_exists_modify heap_at_modify)

lemma heap_edges_same: "unmark_all h' = unmark_all h \<Longrightarrow> heap_edges h' = heap_edges h"
  unfolding heap_edges_def out_refs_def by (simp add: same_but_marks(7)[of h' h])

lemma dfs_correct:
  "targets_alive h \<Longrightarrow>
     dfs_post (heap_edges h) (marked_set h) (marked_set (dfs_mark i h)) {i}
     \<and> (object_exists h i \<longrightarrow> i \<in> marked_set (dfs_mark i h))"
  "targets_alive h \<Longrightarrow> \<forall>t \<in> set ts. object_exists h t \<Longrightarrow>
     dfs_post (heap_edges h) (marked_set h) (marked_set (dfs_targets ts h)) (set ts)
     \<and> set ts \<subseteq> marked_set (dfs_targets ts h)"
proof (induction i h and ts h rule: dfs_mark_dfs_targets.induct)
  case (1 object_id h)
  show ?case
  proof (cases "object_exists h object_id")
    case False
    then show ?thesis by (simp add: dfs_mark.simps dfs_post_refl)
  next
    case ex: True
    show ?thesis
    proof (cases "is_marked (heap_at h object_id)")
      case True
      then show ?thesis using ex by (simp add: dfs_mark.simps dfs_post_refl marked_set_def)
    next
      case False
      let ?h1 = "heap_modify object_id (\<lambda>ob. ob\<lparr>is_marked := True\<rparr>) h"
      let ?ts = "outgoing_references (heap_at h object_id)"
      have e1: "unmark_all ?h1 = unmark_all h" using ex by (rule unmark_all_modify_mark)
      have t1: "targets_alive ?h1" using "1.prems" targets_alive_same[OF e1] by simp
      have al: "\<forall>t \<in> set ?ts. object_exists ?h1 t"
        using "1.prems" ex unfolding targets_alive_def out_refs_def
        by (auto simp: same_but_marks(2)[OF e1])
      have eq: "dfs_mark object_id h = dfs_targets ?ts ?h1"
        using ex False by (simp add: dfs_mark.simps)
      have E: "heap_edges ?h1 = heap_edges h" using e1 by (rule heap_edges_same)
      have S: "set ?ts = heap_edges h `` {object_id}"
        by (auto simp: heap_edges_def out_refs_def)
      have M1: "marked_set ?h1 = insert object_id (marked_set h)" using ex by (rule marked_set_mark)
      from "1.IH"[OF _ _ t1 al] ex False
      have ih: "dfs_post (heap_edges h) (insert object_id (marked_set h))
                  (marked_set (dfs_targets ?ts ?h1)) (heap_edges h `` {object_id})"
        and sub: "heap_edges h `` {object_id} \<subseteq> marked_set (dfs_targets ?ts ?h1)"
        by (simp_all add: E S M1)
      have "dfs_post (heap_edges h) (marked_set h) (marked_set (dfs_targets ?ts ?h1)) {object_id}"
        using ih sub by (rule dfs_post_node)
      moreover have "object_id \<in> marked_set (dfs_targets ?ts ?h1)"
        using ih unfolding dfs_post_def by blast
      ultimately show ?thesis unfolding eq by simp
    qed
  qed
next
  case (2 h)
  show ?case by (simp add: dfs_post_refl)
next
  case (3 target_id rest h)
  from "3.prems" obtain ob where ob: "map_of h target_id = Some ob"
    by (auto dest: object_exists_key)
  then have hob: "heap_at h target_id = ob" by (simp add: heap_at_def)
  from "3.prems" have ext: "object_exists h target_id" and exr: "\<forall>t \<in> set rest. object_exists h t"
    by simp_all
  show ?case
  proof (cases "is_marked ob")
    case True
    have eq: "dfs_targets (target_id # rest) h = dfs_targets rest h" using ob True by simp
    from "3.IH"(4)[OF ob _ "3.prems"(1) exr] True
    have ih: "dfs_post (heap_edges h) (marked_set h) (marked_set (dfs_targets rest h)) (set rest)"
      and sub: "set rest \<subseteq> marked_set (dfs_targets rest h)" by simp_all
    have "target_id \<in> marked_set h" using ext True hob by (simp add: marked_set_def)
    then have "target_id \<in> marked_set (dfs_targets rest h)" using ih unfolding dfs_post_def by blast
    moreover have "dfs_post (heap_edges h) (marked_set h) (marked_set (dfs_targets rest h))
        (set (target_id # rest))"
      using ih by (rule dfs_post_mono) auto
    ultimately show ?thesis unfolding eq using sub by simp
  next
    case False
    let ?h1 = "dfs_mark target_id h"
    have eq: "dfs_targets (target_id # rest) h = dfs_targets rest ?h1" using ob False by simp
    have e1: "unmark_all ?h1 = unmark_all h" using "3.prems"(1) by (rule dfs_marks_only(1))
    have t1: "targets_alive ?h1" using "3.prems"(1) targets_alive_same[OF e1] by simp
    have al: "\<forall>t \<in> set rest. object_exists ?h1 t" using exr by (simp add: same_but_marks(2)[OF e1])
    have E: "heap_edges ?h1 = heap_edges h" using e1 by (rule heap_edges_same)
    from "3.IH"(2)[OF ob _ "3.prems"(1)] False ext
    have ih1: "dfs_post (heap_edges h) (marked_set h) (marked_set ?h1) {target_id}"
      and m1: "target_id \<in> marked_set ?h1" by simp_all
    from "3.IH"(3)[OF ob _ t1 al] False
    have ih2: "dfs_post (heap_edges h) (marked_set ?h1) (marked_set (dfs_targets rest ?h1)) (set rest)"
      and sub: "set rest \<subseteq> marked_set (dfs_targets rest ?h1)" by (simp_all add: E)
    have "dfs_post (heap_edges h) (marked_set h) (marked_set (dfs_targets rest ?h1)) ({target_id} \<union> set rest)"
      using ih1 ih2 by (rule dfs_post_trans)
    moreover have "target_id \<in> marked_set (dfs_targets rest ?h1)"
      using m1 ih2 unfolding dfs_post_def by blast
    ultimately show ?thesis unfolding eq using sub by simp
  qed
qed

lemma fold_dfs_correct:
  "targets_alive h \<Longrightarrow> \<forall>r \<in> set rs. object_exists h r \<Longrightarrow>
     dfs_post (heap_edges h) (marked_set h) (marked_set (fold dfs_mark rs h)) (set rs)
     \<and> set rs \<subseteq> marked_set (fold dfs_mark rs h)"
proof (induction rs arbitrary: h)
  case Nil
  show ?case by (simp add: dfs_post_refl)
next
  case (Cons r rs)
  let ?h1 = "dfs_mark r h"
  have e1: "unmark_all ?h1 = unmark_all h" using Cons.prems(1) by (rule dfs_marks_only(1))
  have t1: "targets_alive ?h1" using Cons.prems(1) targets_alive_same[OF e1] by simp
  have al: "\<forall>t \<in> set rs. object_exists ?h1 t"
    using Cons.prems(2) by (simp add: same_but_marks(2)[OF e1])
  have E: "heap_edges ?h1 = heap_edges h" using e1 by (rule heap_edges_same)
  from dfs_correct(1)[OF Cons.prems(1), of r] Cons.prems(2)
  have ih1: "dfs_post (heap_edges h) (marked_set h) (marked_set ?h1) {r}"
    and m1: "r \<in> marked_set ?h1" by simp_all
  from Cons.IH[OF t1 al]
  have ih2: "dfs_post (heap_edges h) (marked_set ?h1) (marked_set (fold dfs_mark rs ?h1)) (set rs)"
    and sub: "set rs \<subseteq> marked_set (fold dfs_mark rs ?h1)" by (simp_all add: E)
  have "dfs_post (heap_edges h) (marked_set h) (marked_set (fold dfs_mark rs ?h1)) ({r} \<union> set rs)"
    using ih1 ih2 by (rule dfs_post_trans)
  moreover have "r \<in> marked_set (fold dfs_mark rs ?h1)"
    using m1 ih2 unfolding dfs_post_def by blast
  ultimately show ?case using sub by simp
qed

lemma dfs_post_from_empty:
  assumes "dfs_post E {} M' S" "S \<subseteq> M'"
  shows "M' = E\<^sup>* `` S"
proof
  show "M' \<subseteq> E\<^sup>* `` S" using assms(1) unfolding dfs_post_def by blast
next
  have cl: "\<And>y z. y \<in> M' \<Longrightarrow> (y, z) \<in> E \<Longrightarrow> z \<in> M'"
    using assms(1) unfolding dfs_post_def by blast
  have "\<And>r z. (r, z) \<in> E\<^sup>* \<Longrightarrow> r \<in> M' \<Longrightarrow> z \<in> M'"
  proof -
    fix r z
    show "(r, z) \<in> E\<^sup>* \<Longrightarrow> r \<in> M' \<Longrightarrow> z \<in> M'"
      by (induction rule: rtrancl_induct) (auto intro: cl)
  qed
  then show "E\<^sup>* `` S \<subseteq> M'" using assms(2) by blast
qed

lemma get_root_objects_eq:
  "get_root_objects h = map fst (filter (\<lambda>(i, ob). is_alive ob \<and> is_root ob) h)"
  unfolding get_root_objects_def
  by (rule arg_cong[where f = "map fst"], rule filter_cong) auto

lemma set_get_root_objects: "distinct (map fst h) \<Longrightarrow> set (get_root_objects h) = alive_roots h"
  unfolding get_root_objects_eq alive_roots_def
  by (rule set_filter_keys[where P = is_root])

lemma marked_set_unmark_all [simp]: "marked_set (unmark_all h) = {}"
  by (simp add: marked_set_def heap_at_unmark_all)

lemma alive_roots_same: "unmark_all h' = unmark_all h \<Longrightarrow> alive_roots h' = alive_roots h"
  unfolding alive_roots_def
  by (simp add: same_but_marks(2)[of h' h] same_but_marks(4)[of h' h])

lemma mark_phase_correct:
  assumes wf: "wf_heap h"
  shows "marked_set (mark_phase h) = reachable_from_roots h"
proof -
  let ?h0 = "unmark_all h"
  have e0: "unmark_all ?h0 = unmark_all h" by simp
  have t0: "targets_alive ?h0"
    using wf_heap_targets_alive[OF wf] targets_alive_same[OF e0] by simp
  have dk: "distinct (map fst ?h0)" using wf by (simp add: wf_heapD(1))
  have roots: "set (get_root_objects ?h0) = alive_roots h"
    using set_get_root_objects[OF dk] alive_roots_same[OF e0] by simp
  have al: "\<forall>r \<in> set (get_root_objects ?h0). object_exists ?h0 r"
    unfolding roots by (simp add: alive_roots_def)
  have E: "heap_edges ?h0 = heap_edges h" using e0 by (rule heap_edges_same)
  from fold_dfs_correct[OF t0 al]
  have p: "dfs_post (heap_edges h) {} (marked_set (mark_phase h)) (alive_roots h)"
    and sub: "alive_roots h \<subseteq> marked_set (mark_phase h)"
    by (simp_all add: E roots mark_phase_eq)
  show ?thesis unfolding reachable_from_roots_def using p sub by (rule dfs_post_from_empty)
qed

section \<open>What a Mark-Sweep collection deletes\<close>

definition deleted_by_collect :: "GCState \<Rightarrow> int set" where
  "deleted_by_collect s =
     {i. object_exists (heap s) i \<and> \<not> object_exists (heap (snd (ms_collect s))) i}"

definition unreachable_garbage :: "heap_map \<Rightarrow> int set" where
  "unreachable_garbage h =
     {i. object_exists h i \<and> \<not> is_root (heap_at h i) \<and> i \<notin> reachable_from_roots h}"

lemma deleted_by_collect_eq:
  assumes wf: "wf_heap (heap s)"
  shows "deleted_by_collect s = unreachable_garbage (heap s)"
proof -
  let ?h = "heap s" and ?hm = "mark_phase (heap s)"
  let ?s1 = "s\<lparr>heap := ?hm\<rparr>"
  have e: "unmark_all ?hm = unmark_all ?h"
    using wf by (simp add: mark_phase_marks_only wf_heap_targets_alive)
  have wf1: "wf_heap (heap ?s1)" using wf by (simp add: wf_heap_mark_phase)
  have m: "marked_set ?hm = reachable_from_roots ?h" using wf by (rule mark_phase_correct)
  have after: "\<And>j. object_exists (heap (snd (ms_collect s))) j =
      (object_exists ?hm j \<and> (is_marked (heap_at ?hm j) \<or> is_root (heap_at ?hm j)))"
    using sweep_phase_facts(3)[OF wf1] by (simp add: ms_collect_heap)
  have roots: "\<And>j. object_exists ?h j \<Longrightarrow> is_root (heap_at ?h j) \<Longrightarrow> j \<in> reachable_from_roots ?h"
    by (auto simp: reachable_from_roots_def alive_roots_def)
  have mk: "\<And>j. object_exists ?h j \<Longrightarrow> is_marked (heap_at ?hm j) = (j \<in> reachable_from_roots ?h)"
    using m by (auto simp: marked_set_def same_but_marks(2)[OF e])
  show ?thesis
    unfolding deleted_by_collect_def unreachable_garbage_def
    using roots mk
    by (auto simp: after same_but_marks(2)[OF e] same_but_marks(4)[OF e])
qed

lemma unreachable_garbage_cong:
  assumes "map_of h' = map_of h"
  shows "unreachable_garbage h' = unreachable_garbage h"
proof -
  have a: "\<And>i. heap_at h' i = heap_at h i" "\<And>i. object_exists h' i = object_exists h i"
    using assms by (simp_all add: heap_at_def object_exists_def)
  then have "heap_edges h' = heap_edges h" "alive_roots h' = alive_roots h"
    by (simp_all add: heap_edges_def out_refs_def alive_roots_def)
  then show ?thesis by (simp add: unreachable_garbage_def reachable_from_roots_def a)
qed

text \<open>
  C2: in every state whose heap is well formed (\<open>wf_heap\<close>: one entry per key, every
  edge recorded at an alive endpoint has an alive other endpoint that records it too),
  one \<open>collect\<close> of the Mark-Sweep collector deletes exactly the alive, non-root objects
  that no path of outgoing edges reaches from an alive root; a state that holds the same
  objects in another iteration order has the same deleted set; and every state that an
  operation sequence reaches from the initial state is well formed.
\<close>

theorem ms_collect_deletes_unreachable:
  "(wf_heap (heap s) \<longrightarrow>
      deleted_by_collect s = unreachable_garbage (heap s)
      \<and> (\<forall>s' :: GCState. wf_heap (heap s') \<and> map_of (heap s') = map_of (heap s)
             \<longrightarrow> deleted_by_collect s' = deleted_by_collect s))
   \<and> wf_heap (heap (ms_run ops (gc_init m t)))"
proof (intro conjI impI allI)
  assume wf: "wf_heap (heap s)"
  then show "deleted_by_collect s = unreachable_garbage (heap s)" by (rule deleted_by_collect_eq)
next
  fix s' :: GCState
  assume wf: "wf_heap (heap s)"
    and h: "wf_heap (heap s') \<and> map_of (heap s') = map_of (heap s)"
  have "deleted_by_collect s' = unreachable_garbage (heap s')"
    using h by (simp add: deleted_by_collect_eq)
  also have "\<dots> = unreachable_garbage (heap s)"
    using h by (intro unreachable_garbage_cong) simp
  also have "\<dots> = deleted_by_collect s"
    using wf by (simp add: deleted_by_collect_eq)
  finally show "deleted_by_collect s' = deleted_by_collect s" .
next
  have "wf_state (ms_run ops (gc_init m t))" by (simp add: wf_state_ms_run wf_state_init)
  then show "wf_heap (heap (ms_run ops (gc_init m t)))" by (simp add: wf_state_def)
qed

text \<open>The two-object cycle a \<rightarrow> b \<rightarrow> a with a root that reaches neither: a = 0, b = 1.\<close>

definition two_cycle_ops :: "gc_op list" where
  "two_cycle_ops =
     [Allocate 16, Allocate 16, Allocate 16, MakeRoot 2, AddReference 0 1, AddReference 1 0]"

theorem ms_collect_deletes_unreachable_witness:
  "wf_heap (heap (ms_run two_cycle_ops default_gc))
   \<and> deleted_by_collect (ms_run two_cycle_ops default_gc)
       = unreachable_garbage (heap (ms_run two_cycle_ops default_gc))
   \<and> 1 \<in> out_refs (heap (ms_run two_cycle_ops default_gc)) 0
   \<and> 0 \<in> out_refs (heap (ms_run two_cycle_ops default_gc)) 1
   \<and> 0 \<in> deleted_by_collect (ms_run two_cycle_ops default_gc)
   \<and> 1 \<in> deleted_by_collect (ms_run two_cycle_ops default_gc)
   \<and> 2 \<notin> deleted_by_collect (ms_run two_cycle_ops default_gc)
   \<and> 0 \<in> unreachable_garbage (heap (ms_run two_cycle_ops default_gc))
   \<and> 1 \<in> unreachable_garbage (heap (ms_run two_cycle_ops default_gc))
   \<and> fst (ms_collect (ms_run two_cycle_ops default_gc)) = 32"
proof -
  let ?s = "ms_run two_cycle_ops default_gc"
  note t = ms_collect_deletes_unreachable[of ?s two_cycle_ops "1024 * 1024" "(1024 * 1024 * 80) div 100"]
  have wf: "wf_heap (heap ?s)" using t unfolding default_gc_def by blast
  have eq: "deleted_by_collect ?s = unreachable_garbage (heap ?s)" using t wf by blast
  have ev: "object_exists (heap ?s) 0 \<and> \<not> object_exists (heap (snd (ms_collect ?s))) 0"
    "object_exists (heap ?s) 1 \<and> \<not> object_exists (heap (snd (ms_collect ?s))) 1"
    "object_exists (heap (snd (ms_collect ?s))) 2"
    "1 \<in> out_refs (heap ?s) 0" "0 \<in> out_refs (heap ?s) 1"
    "fst (ms_collect ?s) = 32"
    by code_simp+
  have d: "0 \<in> deleted_by_collect ?s" "1 \<in> deleted_by_collect ?s" "2 \<notin> deleted_by_collect ?s"
    using ev by (simp_all add: deleted_by_collect_def)
  then have "0 \<in> unreachable_garbage (heap ?s)" "1 \<in> unreachable_garbage (heap ?s)"
    using eq by simp_all
  then show ?thesis using wf eq d ev by blast
qed

section \<open>The counting invariant of the reference-counting heap\<close>

declare counter_cascade_delete.simps [simp del]

lemma rc_at_modify: "rc_at (rc_modify i f m) j = (if j = i then f (rc_at m i) else rc_at m j)"
  by (simp add: rc_modify_def rc_at_def update_conv)

lemma rc_count_modify: "rc_count (rc_modify i f m) j = (j = i \<or> rc_count m j)"
  by (simp add: rc_modify_def rc_count_def update_conv)

lemma rc_at_delete: "rc_at (AList.delete i m) j = (if j = i then RCObject_default else rc_at m j)"
  by (simp add: rc_at_def delete_conv)

lemma rc_count_delete: "rc_count (AList.delete i m) j = (j \<noteq> i \<and> rc_count m j)"
  by (simp add: rc_count_def delete_conv)

lemma rc_count_keys: "rc_count m i = (i \<in> fst ` set m)"
  by (simp add: rc_count_def map_of_eq_None_iff)

lemma finite_rc_keys: "finite {x. rc_count m x}"
proof -
  have "{x. rc_count m x} = fst ` set m" by (auto simp: rc_count_keys)
  then show ?thesis by simp
qed

definition rc_refs :: "rc_map \<Rightarrow> int \<Rightarrow> int set" where
  "rc_refs m x = set (references (rc_at m x))"

text \<open>
  The objects that hold a reference to \<open>b\<close>, leaving out those of \<open>S\<close>, the objects a
  running cascade is in the middle of deleting.
\<close>

definition referrers :: "rc_map \<Rightarrow> int set \<Rightarrow> int \<Rightarrow> int set" where
  "referrers m S b = {x. rc_count m x \<and> x \<notin> S \<and> b \<in> rc_refs m x}"

lemma finite_referrers: "finite (referrers m S b)"
  by (rule finite_subset[OF _ finite_rc_keys[of m]]) (auto simp: referrers_def)

text \<open>
  \<open>rc_inv m R D S\<close>: \<open>R\<close> is the root set, \<open>S\<close> the objects in deletion and \<open>D b\<close> the
  number of decrements of \<open>b\<close> that the cascade still owes. Every count is the number of
  its causes: the root, the referrers outside \<open>S\<close> and the decrements owed.
\<close>

definition rc_inv :: "rc_map \<Rightarrow> int set \<Rightarrow> (int \<Rightarrow> nat) \<Rightarrow> int set \<Rightarrow> bool" where
  "rc_inv m R D S \<longleftrightarrow>
     (\<forall>r \<in> R. rc_count m r)
     \<and> (\<forall>x. rc_count m x \<and> x \<notin> S \<longrightarrow> (\<forall>b \<in> rc_refs m x. rc_count m b))
     \<and> (\<forall>x. rc_count m x \<longrightarrow> distinct (references (rc_at m x)) \<and> x \<notin> rc_refs m x)
     \<and> (\<forall>b. rc_count m b \<longrightarrow>
           ref_count (rc_at m b) = (if b \<in> R then 1 else 0) + int (card (referrers m S b)) + int (D b))
     \<and> (\<forall>b. D b > 0 \<longrightarrow> rc_count m b)
     \<and> (\<forall>x \<in> S. rc_count m x \<and> ref_count (rc_at m x) = 0)"

lemma rc_invD:
  assumes "rc_inv m R D S"
  shows "r \<in> R \<Longrightarrow> rc_count m r"
    and "rc_count m x \<Longrightarrow> x \<notin> S \<Longrightarrow> b \<in> rc_refs m x \<Longrightarrow> rc_count m b"
    and "rc_count m x \<Longrightarrow> distinct (references (rc_at m x))"
    and "rc_count m x \<Longrightarrow> x \<notin> rc_refs m x"
    and "rc_count m b \<Longrightarrow>
           ref_count (rc_at m b) = (if b \<in> R then 1 else 0) + int (card (referrers m S b)) + int (D b)"
    and "D b > 0 \<Longrightarrow> rc_count m b"
    and "x \<in> S \<Longrightarrow> rc_count m x"
    and "x \<in> S \<Longrightarrow> ref_count (rc_at m x) = 0"
  using assms unfolding rc_inv_def by blast+

lemma rc_invI:
  assumes "\<And>r. r \<in> R \<Longrightarrow> rc_count m r"
    and "\<And>x b. rc_count m x \<Longrightarrow> x \<notin> S \<Longrightarrow> b \<in> rc_refs m x \<Longrightarrow> rc_count m b"
    and "\<And>x. rc_count m x \<Longrightarrow> distinct (references (rc_at m x)) \<and> x \<notin> rc_refs m x"
    and "\<And>b. rc_count m b \<Longrightarrow>
           ref_count (rc_at m b) = (if b \<in> R then 1 else 0) + int (card (referrers m S b)) + int (D b)"
    and "\<And>b. D b > 0 \<Longrightarrow> rc_count m b"
    and "\<And>x. x \<in> S \<Longrightarrow> rc_count m x \<and> ref_count (rc_at m x) = 0"
  shows "rc_inv m R D S"
  unfolding rc_inv_def using assms by blast

lemma count_list_distinct: "distinct xs \<Longrightarrow> count_list xs b = (if b \<in> set xs then 1 else 0)"
  by (induction xs) auto

subsection \<open>Entering a deletion\<close>

lemma referrers_insert:
  "referrers m (insert c S) b = referrers m S b - {c}"
  by (auto simp: referrers_def)

lemma card_referrers_insert:
  assumes "rc_count m c" "c \<notin> S"
  shows "card (referrers m S b) = card (referrers m (insert c S) b) + (if b \<in> rc_refs m c then 1 else 0)"
proof (cases "b \<in> rc_refs m c")
  case True
  then have "c \<in> referrers m S b" using assms by (simp add: referrers_def)
  then have "card (referrers m S b) = Suc (card (referrers m S b - {c}))"
    by (rule card.remove[OF finite_referrers])
  then show ?thesis using True by (simp add: referrers_insert)
next
  case False
  then have "c \<notin> referrers m S b" by (simp add: referrers_def)
  then show ?thesis using False by (simp add: referrers_insert)
qed

lemma rc_inv_enter:
  assumes inv: "rc_inv m R D S" and c: "rc_count m c" "c \<notin> S" "ref_count (rc_at m c) = 0"
  shows "rc_inv m R (\<lambda>b. D b + count_list (references (rc_at m c)) b) (insert c S)"
proof (rule rc_invI)
  fix r assume "r \<in> R" then show "rc_count m r" using inv by (rule rc_invD(1)[rotated])
next
  fix x b assume "rc_count m x" "x \<notin> insert c S" "b \<in> rc_refs m x"
  then show "rc_count m b" using rc_invD(2)[OF inv] by blast
next
  fix x assume "rc_count m x"
  then show "distinct (references (rc_at m x)) \<and> x \<notin> rc_refs m x"
    using rc_invD(3,4)[OF inv] by blast
next
  fix b assume b: "rc_count m b"
  have d: "count_list (references (rc_at m c)) b = (if b \<in> rc_refs m c then 1 else 0)"
    unfolding rc_refs_def using rc_invD(3)[OF inv c(1)] by (rule count_list_distinct)
  show "ref_count (rc_at m b) = (if b \<in> R then 1 else 0)
      + int (card (referrers m (insert c S) b)) + int (D b + count_list (references (rc_at m c)) b)"
    using rc_invD(5)[OF inv b] card_referrers_insert[OF c(1,2), of b] d by simp
next
  fix b assume "0 < D b + count_list (references (rc_at m c)) b"
  then have "0 < D b \<or> b \<in> rc_refs m c"
    by (auto simp: rc_refs_def intro: ccontr dest: count_notin)
  then show "rc_count m b" using rc_invD(6)[OF inv] rc_invD(2)[OF inv c(1,2)] by blast
next
  fix x assume "x \<in> insert c S"
  then show "rc_count m x \<and> ref_count (rc_at m x) = 0"
    using c rc_invD(7,8)[OF inv] by blast
qed

subsection \<open>Paying one decrement\<close>

lemma rc_refs_modify_count:
  "(\<And>ob. references (f ob) = references ob) \<Longrightarrow> rc_refs (rc_modify c f m) x = rc_refs m x"
  by (simp add: rc_refs_def rc_at_modify)

lemma referrers_modify_count:
  assumes "\<And>ob. references (f ob) = references ob" "rc_count m c"
  shows "referrers (rc_modify c f m) S b = referrers m S b"
  using assms by (auto simp: referrers_def rc_count_modify rc_refs_modify_count)

lemma references_decrement [simp]: "references (decrement_clamped ob) = references ob"
  by (simp add: decrement_clamped_def Let_def)

lemma ref_count_decrement:
  "ref_count (decrement_clamped ob) = (if ref_count ob - 1 < 0 then 0 else ref_count ob - 1)"
  by (simp add: decrement_clamped_def Let_def)

lemma rc_inv_pending_child:
  assumes inv: "rc_inv m R (\<lambda>b. D b + count_list (c # rest) b) S"
  shows "rc_count m c" and "c \<notin> S" and "ref_count (rc_at m c) \<ge> 1"
proof -
  show k: "rc_count m c" using rc_invD(6)[OF inv, of c] by simp
  show p: "ref_count (rc_at m c) \<ge> 1" using rc_invD(5)[OF inv k] by simp
  show "c \<notin> S" using rc_invD(8)[OF inv, of c] p by auto
qed

lemma rc_count_decrement:
  assumes "rc_inv m R (\<lambda>b. D b + count_list (c # rest) b) S"
  shows "rc_count (rc_modify c decrement_clamped m) x = rc_count m x"
  using rc_inv_pending_child(1)[OF assms] by (auto simp: rc_count_modify)

lemma rc_refs_decrement: "rc_refs (rc_modify c decrement_clamped m) x = rc_refs m x"
  by (simp add: rc_refs_modify_count)

lemma references_at_decrement:
  "references (rc_at (rc_modify c decrement_clamped m) x) = references (rc_at m x)"
  by (simp add: rc_at_modify)

lemma referrers_decrement:
  assumes "rc_inv m R (\<lambda>b. D b + count_list (c # rest) b) S"
  shows "referrers (rc_modify c decrement_clamped m) S b = referrers m S b"
  using rc_inv_pending_child(1)[OF assms] by (simp add: referrers_modify_count)

lemma ref_count_after_decrement:
  assumes inv: "rc_inv m R (\<lambda>b. D b + count_list (c # rest) b) S" and b0: "rc_count m b"
  shows "ref_count (rc_at (rc_modify c decrement_clamped m) b) = (if b \<in> R then 1 else 0)
        + int (card (referrers m S b)) + int (D b + count_list rest b)"
  using rc_invD(5)[OF inv b0] rc_inv_pending_child(3)[OF inv]
  by (cases "b = c") (auto simp: rc_at_modify ref_count_decrement)

lemma rc_inv_decrement:
  assumes inv: "rc_inv m R (\<lambda>b. D b + count_list (c # rest) b) S"
  shows "rc_inv (rc_modify c decrement_clamped m) R (\<lambda>b. D b + count_list rest b) S"
proof (rule rc_invI)
  fix r assume "r \<in> R"
  then show "rc_count (rc_modify c decrement_clamped m) r"
    using rc_invD(1)[OF inv] by (simp add: rc_count_decrement[OF inv])
next
  fix x b
  assume "rc_count (rc_modify c decrement_clamped m) x" "x \<notin> S"
    "b \<in> rc_refs (rc_modify c decrement_clamped m) x"
  then have "rc_count m x" "x \<notin> S" "b \<in> rc_refs m x"
    by (simp_all add: rc_count_decrement[OF inv] rc_refs_decrement)
  then have "rc_count m b" by (rule rc_invD(2)[OF inv])
  then show "rc_count (rc_modify c decrement_clamped m) b"
    by (simp add: rc_count_decrement[OF inv])
next
  fix x assume "rc_count (rc_modify c decrement_clamped m) x"
  then have "rc_count m x" by (simp add: rc_count_decrement[OF inv])
  then show "distinct (references (rc_at (rc_modify c decrement_clamped m) x))
      \<and> x \<notin> rc_refs (rc_modify c decrement_clamped m) x"
    using rc_invD(3,4)[OF inv, of x] by (simp add: references_at_decrement rc_refs_decrement)
next
  fix b assume "rc_count (rc_modify c decrement_clamped m) b"
  then have "rc_count m b" by (simp add: rc_count_decrement[OF inv])
  then show "ref_count (rc_at (rc_modify c decrement_clamped m) b) = (if b \<in> R then 1 else 0)
      + int (card (referrers (rc_modify c decrement_clamped m) S b)) + int (D b + count_list rest b)"
    by (simp only: referrers_decrement[OF inv] ref_count_after_decrement[OF inv])
next
  fix b assume "0 < D b + count_list rest b"
  then have "0 < D b + count_list (c # rest) b" by simp
  then have "rc_count m b" by (rule rc_invD(6)[OF inv])
  then show "rc_count (rc_modify c decrement_clamped m) b"
    by (simp add: rc_count_decrement[OF inv])
next
  fix x assume x: "x \<in> S"
  then have "x \<noteq> c" using rc_inv_pending_child(2)[OF inv] by blast
  then show "rc_count (rc_modify c decrement_clamped m) x
      \<and> ref_count (rc_at (rc_modify c decrement_clamped m) x) = 0"
    using rc_invD(7,8)[OF inv x] by (simp add: rc_count_decrement[OF inv] rc_at_modify)
qed

subsection \<open>Erasing the object\<close>

lemma rc_inv_erase:
  assumes inv: "rc_inv m R D (insert c S)" and c: "c \<notin> S"
  shows "rc_inv (AList.delete c m) R D S"
proof (rule rc_invI)
  let ?m' = "AList.delete c m"
  have kc: "rc_count m c" and z: "ref_count (rc_at m c) = 0"
    using rc_invD(7,8)[OF inv, of c] by simp_all
  from rc_invD(5)[OF inv kc] z
  have nr: "c \<notin> R" and e: "card (referrers m (insert c S) c) = 0" and d0: "D c = 0"
    by (auto split: if_splits)
  then have none: "referrers m (insert c S) c = {}"
    using finite_referrers[of m "insert c S" c] by simp
  have refs: "\<And>x. x \<noteq> c \<Longrightarrow> rc_refs ?m' x = rc_refs m x"
    by (simp add: rc_refs_def rc_at_delete)
  have rf: "\<And>b. referrers ?m' S b = referrers m (insert c S) b"
    by (auto simp: referrers_def rc_count_delete rc_refs_def rc_at_delete)
  { fix r assume "r \<in> R"
    then show "rc_count ?m' r" using rc_invD(1)[OF inv] nr by (auto simp: rc_count_delete) }
  { fix x b assume x: "rc_count ?m' x" "x \<notin> S" "b \<in> rc_refs ?m' x"
    then have x0: "rc_count m x" "x \<noteq> c" "x \<notin> insert c S" "b \<in> rc_refs m x"
      by (simp_all add: rc_count_delete refs)
    then have "rc_count m b" using rc_invD(2)[OF inv] by blast
    moreover have "b \<noteq> c" using none x0 by (auto simp: referrers_def)
    ultimately show "rc_count ?m' b" by (simp add: rc_count_delete) }
  { fix x assume "rc_count ?m' x"
    then show "distinct (references (rc_at ?m' x)) \<and> x \<notin> rc_refs ?m' x"
      using rc_invD(3,4)[OF inv, of x] by (simp add: rc_count_delete refs rc_at_delete) }
  { fix b assume "rc_count ?m' b"
    then have b: "rc_count m b" "b \<noteq> c" by (simp_all add: rc_count_delete)
    show "ref_count (rc_at ?m' b) = (if b \<in> R then 1 else 0)
        + int (card (referrers ?m' S b)) + int (D b)"
      using rc_invD(5)[OF inv b(1)] b(2) by (simp add: rf rc_at_delete) }
  { fix b assume "0 < D b"
    then show "rc_count ?m' b" using rc_invD(6)[OF inv, of b] d0 by (auto simp: rc_count_delete) }
  { fix x assume x: "x \<in> S"
    then have "x \<noteq> c" using c by blast
    then show "rc_count ?m' x \<and> ref_count (rc_at ?m' x) = 0"
      using rc_invD(7,8)[OF inv, of x] x by (simp add: rc_count_delete rc_at_delete) }
qed

subsection \<open>The cascade keeps the invariant\<close>

text \<open>\<open>visited_ok m V S\<close>: the visited ids still in the heap are the objects in deletion.\<close>

definition visited_ok :: "rc_map \<Rightarrow> int set \<Rightarrow> int set \<Rightarrow> bool" where
  "visited_ok m V S \<longleftrightarrow> V \<inter> {x. rc_count m x} = S"

lemma visited_ok_enter:
  "visited_ok m V S \<Longrightarrow> rc_count m c \<Longrightarrow> visited_ok m (insert c V) (insert c S)"
  unfolding visited_ok_def by auto

lemma visited_ok_decrement:
  "rc_count m c \<Longrightarrow> visited_ok (rc_modify c f m) V S = visited_ok m V S"
  unfolding visited_ok_def by (auto simp: rc_count_modify)

lemma visited_ok_erase:
  "visited_ok m V (insert c S) \<Longrightarrow> c \<notin> S \<Longrightarrow> visited_ok (AList.delete c m) V S"
  unfolding visited_ok_def by (auto simp: rc_count_delete)

lemma visited_ok_notin: "visited_ok m V S \<Longrightarrow> rc_count m c \<Longrightarrow> c \<notin> S \<Longrightarrow> c \<notin> V"
  unfolding visited_ok_def by auto

lemma cascade_keeps_inv:
  "\<And>R D S. rc_inv (fst mv) R D S \<Longrightarrow> visited_ok (fst mv) (snd mv) S \<Longrightarrow>
      rc_count (fst mv) oid \<Longrightarrow> oid \<notin> S \<Longrightarrow> ref_count (rc_at (fst mv) oid) = 0 \<Longrightarrow>
      rc_inv (fst (counter_cascade_delete oid mv)) R D S
      \<and> visited_ok (fst (counter_cascade_delete oid mv)) (snd (counter_cascade_delete oid mv)) S"
  "\<And>R D S. rc_inv (fst mv') R (\<lambda>b. D b + count_list cs b) S \<Longrightarrow> visited_ok (fst mv') (snd mv') S \<Longrightarrow>
      rc_inv (fst (cascade_children cs mv')) R D S
      \<and> visited_ok (fst (cascade_children cs mv')) (snd (cascade_children cs mv')) S"
proof (induction oid mv and cs mv' rule: counter_cascade_delete_cascade_children.induct)
  case (1 oid m visited)
  from "1.prems" have inv: "rc_inv m R D S" and vo: "visited_ok m visited S"
    and k: "rc_count m oid" and ns: "oid \<notin> S" and z: "ref_count (rc_at m oid) = 0"
    by simp_all
  have nv: "oid \<notin> visited" using vo k ns by (rule visited_ok_notin)
  let ?cs = "references (rc_at m oid)"
  let ?r = "cascade_children ?cs (m, insert oid visited)"
  have inv1: "rc_inv m R (\<lambda>b. D b + count_list ?cs b) (insert oid S)"
    using inv k ns z by (rule rc_inv_enter)
  have vo1: "visited_ok m (insert oid visited) (insert oid S)"
    using vo k by (rule visited_ok_enter)
  from "1.IH"[of R D "insert oid S"] k nv z inv1 vo1
  have ih: "rc_inv (fst ?r) R D (insert oid S)" "visited_ok (fst ?r) (snd ?r) (insert oid S)"
    by simp_all
  have eq: "counter_cascade_delete oid (m, visited) = (AList.delete oid (fst ?r), snd ?r)"
    using k nv z by (simp add: counter_cascade_delete.simps split_beta)
  have "rc_inv (AList.delete oid (fst ?r)) R D S" using ih(1) ns by (rule rc_inv_erase)
  moreover have "visited_ok (AList.delete oid (fst ?r)) (snd ?r) S"
    using ih(2) ns by (rule visited_ok_erase)
  ultimately show ?case by (simp add: eq)
next
  case (2 mv)
  then show ?case by simp
next
  case (3 child rest m visited)
  from "3.prems" have inv: "rc_inv m R (\<lambda>b. D b + count_list (child # rest) b) S"
    and vo: "visited_ok m visited S" by simp_all
  note pc = rc_inv_pending_child[OF inv]
  let ?m1 = "rc_modify child decrement_clamped m"
  have inv1: "rc_inv ?m1 R (\<lambda>b. D b + count_list rest b) S" using inv by (rule rc_inv_decrement)
  have vo1: "visited_ok ?m1 visited S" using vo pc(1) by (simp add: visited_ok_decrement)
  have k1: "rc_count ?m1 child" by (simp add: rc_count_modify)
  show ?case
  proof (cases "ref_count (rc_at ?m1 child) = 0")
    case False
    have eq: "cascade_children (child # rest) (m, visited) = cascade_children rest (?m1, visited)"
      using pc(1) False by (simp add: Let_def)
    from "3.IH"(3)[OF pc(1) refl False, of R D S] inv1 vo1
    show ?thesis unfolding eq by simp
  next
    case True
    let ?r = "counter_cascade_delete child (?m1, visited)"
    have eq: "cascade_children (child # rest) (m, visited) = cascade_children rest ?r"
      using pc(1) True by (simp add: Let_def)
    from "3.IH"(1)[OF pc(1) refl True, of R "\<lambda>b. D b + count_list rest b" S] inv1 vo1 k1 pc(2) True
    have ih1: "rc_inv (fst ?r) R (\<lambda>b. D b + count_list rest b) S" "visited_ok (fst ?r) (snd ?r) S"
      by simp_all
    from "3.IH"(2)[OF pc(1) refl True, of R D S] ih1
    show ?thesis unfolding eq by simp
  qed
qed

text \<open>The invariant between operations: no cascade is running.\<close>

definition rc_heap_inv :: "RCHeap \<Rightarrow> bool" where
  "rc_heap_inv s \<longleftrightarrow> rc_inv (objects s) (roots s) (\<lambda>b. 0) {}"

lemma cascade_from_rest:
  assumes "rc_inv m R (\<lambda>b. 0) {}" "rc_count m oid" "ref_count (rc_at m oid) = 0"
  shows "rc_inv (fst (counter_cascade_delete oid (m, {}))) R (\<lambda>b. 0) {}"
  using cascade_keeps_inv(1)[of "(m, {})" R "\<lambda>b. 0" "{}" oid] assms
  by (simp add: visited_ok_def)

subsection \<open>Every operation keeps the invariant\<close>

lemma rc_heap_inv_init: "rc_heap_inv rc_init"
  by (simp add: rc_heap_inv_def rc_init_def rc_inv_def rc_count_def)

lemma rc_at_append:
  "\<not> rc_count m k \<Longrightarrow> rc_at (m @ [(k, ob)]) j = (if j = k then ob else rc_at m j)"
  by (auto simp: rc_at_def rc_count_def map_add_def split: option.splits)

lemma rc_count_append: "rc_count (m @ [(k, ob)]) j = (j = k \<or> rc_count m j)"
  by (auto simp: rc_count_def map_add_def split: option.splits)

lemma RCObject_new_fields [simp]:
  "references (RCObject_new k) = []" "ref_count (RCObject_new k) = 0"
  by (simp_all add: RCObject_new_def)

lemma rc_inv_allocate:
  assumes inv: "rc_inv m R (\<lambda>b. 0) {}" and fresh: "\<not> rc_count m k"
  shows "rc_inv (m @ [(k, RCObject_new k)]) R (\<lambda>b. 0) {}"
proof (rule rc_invI)
  let ?m' = "m @ [(k, RCObject_new k)]"
  have at: "\<And>j. rc_at ?m' j = (if j = k then RCObject_new k else rc_at m j)"
    using fresh by (simp add: rc_at_append)
  have refs: "\<And>x. rc_refs ?m' x = (if x = k then {} else rc_refs m x)"
    by (simp add: rc_refs_def at)
  have nk: "\<And>x. rc_count m x \<Longrightarrow> k \<notin> rc_refs m x"
    using rc_invD(2)[OF inv] fresh by blast
  have nR: "k \<notin> R" using rc_invD(1)[OF inv] fresh by blast
  have rf: "\<And>b. referrers ?m' {} b = (if b = k then {} else referrers m {} b)"
    using nk fresh by (auto simp: referrers_def rc_count_append refs)
  { fix r assume "r \<in> R" then show "rc_count ?m' r"
      using rc_invD(1)[OF inv] by (simp add: rc_count_append) }
  { fix x b assume "rc_count ?m' x" "x \<notin> {}" "b \<in> rc_refs ?m' x"
    then show "rc_count ?m' b"
      using rc_invD(2)[OF inv, of x b] by (auto simp: rc_count_append refs split: if_splits) }
  { fix x assume "rc_count ?m' x"
    then show "distinct (references (rc_at ?m' x)) \<and> x \<notin> rc_refs ?m' x"
      using rc_invD(3,4)[OF inv, of x] by (auto simp: rc_count_append refs at) }
  { fix b assume "rc_count ?m' b"
    then show "ref_count (rc_at ?m' b) = (if b \<in> R then 1 else 0)
        + int (card (referrers ?m' {} b)) + int 0"
      using rc_invD(5)[OF inv, of b] nR
      by (auto simp: rc_count_append rf at) }
  { fix b :: int assume "(0::nat) < 0" then show "rc_count ?m' b" by simp }
  { fix x :: int assume "x \<in> {}" then show "rc_count ?m' x \<and> ref_count (rc_at ?m' x) = 0" by simp }
qed

lemma rc_heap_inv_allocate: "rc_heap_inv s \<Longrightarrow> rc_heap_inv (snd (rc_allocate oid s))"
  by (simp add: rc_heap_inv_def rc_allocate_def rc_inv_allocate)

lemma rc_inv_count_change:
  assumes inv: "rc_inv m R (\<lambda>b. 0) {}" and k: "rc_count m i"
    and f: "\<And>ob. references (f ob) = references ob"
    and others: "\<And>r. r \<noteq> i \<Longrightarrow> (r \<in> R') = (r \<in> R)"
    and cnt: "ref_count (f (rc_at m i)) = ref_count (rc_at m i)
                + (if i \<in> R' then 1 else 0) - (if i \<in> R then 1 else 0)"
  shows "rc_inv (rc_modify i f m) R' (\<lambda>b. 0) {}"
proof (rule rc_invI)
  let ?m' = "rc_modify i f m"
  have keys: "\<And>x. rc_count ?m' x = rc_count m x" using k by (auto simp: rc_count_modify)
  have refs: "\<And>x. rc_refs ?m' x = rc_refs m x" using f by (simp add: rc_refs_modify_count)
  have rl: "\<And>x. references (rc_at ?m' x) = references (rc_at m x)" using f by (simp add: rc_at_modify)
  have rf: "\<And>b. referrers ?m' {} b = referrers m {} b" using f k by (simp add: referrers_modify_count)
  { fix r assume "r \<in> R'" then show "rc_count ?m' r"
      using rc_invD(1)[OF inv, of r] others[of r] k by (cases "r = i") (simp_all add: keys) }
  { fix x b assume "rc_count ?m' x" "x \<notin> {}" "b \<in> rc_refs ?m' x"
    then show "rc_count ?m' b" using rc_invD(2)[OF inv, of x b] by (simp add: keys refs) }
  { fix x assume "rc_count ?m' x"
    then show "distinct (references (rc_at ?m' x)) \<and> x \<notin> rc_refs ?m' x"
      using rc_invD(3,4)[OF inv, of x] by (simp add: keys refs rl) }
  { fix b assume "rc_count ?m' b"
    then have b: "rc_count m b" by (simp add: keys)
    show "ref_count (rc_at ?m' b) = (if b \<in> R' then 1 else 0)
        + int (card (referrers ?m' {} b)) + int 0"
      using rc_invD(5)[OF inv b] others[of b] cnt
      by (cases "b = i") (simp_all add: rf rc_at_modify) }
  { fix b :: int assume "(0::nat) < 0" then show "rc_count ?m' b" by simp }
  { fix x :: int assume "x \<in> {}" then show "rc_count ?m' x \<and> ref_count (rc_at ?m' x) = 0" by simp }
qed

lemma rc_heap_inv_add_root: "rc_heap_inv s \<Longrightarrow> rc_heap_inv (snd (rc_add_root oid s))"
  unfolding rc_heap_inv_def rc_add_root_def
  by (auto intro!: rc_inv_count_change)

lemma root_count_positive:
  assumes "rc_inv m R (\<lambda>b. 0) {}" "i \<in> R"
  shows "ref_count (rc_at m i) \<ge> 1"
  using rc_invD(5)[OF assms(1) rc_invD(1)[OF assms]] assms(2) by simp

lemma rc_heap_inv_remove_root:
  assumes "rc_heap_inv s"
  shows "rc_heap_inv (snd (rc_remove_root oid s))"
proof (cases "rc_count (objects s) oid \<and> oid \<in> roots s")
  case False
  then show ?thesis using assms by (auto simp: rc_remove_root_def)
next
  case True
  let ?m1 = "rc_modify oid (\<lambda>ob. ob\<lparr>ref_count := ref_count ob - 1\<rparr>) (objects s)"
  from assms have inv: "rc_inv (objects s) (roots s) (\<lambda>b. 0) {}" by (simp add: rc_heap_inv_def)
  have inv1: "rc_inv ?m1 (roots s - {oid}) (\<lambda>b. 0) {}"
    using inv True by (intro rc_inv_count_change) auto
  have p: "ref_count (rc_at (objects s) oid) \<ge> 1" using inv True by (simp add: root_count_positive)
  then have nn: "\<not> ref_count (rc_at ?m1 oid) < 0" by (simp add: rc_at_modify)
  have k1: "rc_count ?m1 oid" by (simp add: rc_count_modify)
  show ?thesis
  proof (cases "ref_count (rc_at ?m1 oid) = 0")
    case z: True
    have "rc_inv (fst (counter_cascade_delete oid (?m1, {}))) (roots s - {oid}) (\<lambda>b. 0) {}"
      using inv1 k1 z by (rule cascade_from_rest)
    then show ?thesis using True nn z by (simp add: rc_remove_root_def rc_heap_inv_def Let_def)
  next
    case False
    then show ?thesis using True nn inv1 by (simp add: rc_remove_root_def rc_heap_inv_def Let_def)
  qed
qed

lemma rc_inv_add_edge:
  assumes inv: "rc_inv m R (\<lambda>b. 0) {}" and a: "rc_count m a" and b: "rc_count m b"
    and ne: "a \<noteq> b" and new: "b \<notin> rc_refs m a"
  shows "rc_inv (rc_modify b (\<lambda>ob. ob\<lparr>ref_count := ref_count ob + 1\<rparr>)
                  (rc_modify a (add_outgoing_ref b) m)) R (\<lambda>b. 0) {}"
    (is "rc_inv ?m' R _ _")
proof (rule rc_invI)
  have keys: "\<And>x. rc_count ?m' x = rc_count m x" using a b by (auto simp: rc_count_modify)
  have rl: "\<And>x. references (rc_at ?m' x) =
      (if x = a then references (rc_at m a) @ [b] else references (rc_at m x))"
    using ne new by (simp add: rc_at_modify add_outgoing_ref_def has_reference_to_def rc_refs_def)
  have refs: "\<And>x. rc_refs ?m' x = (if x = a then insert b (rc_refs m a) else rc_refs m x)"
    by (simp add: rc_refs_def rl)
  have rf: "\<And>c. referrers ?m' {} c = (if c = b then insert a (referrers m {} b) else referrers m {} c)"
    using a by (auto simp: referrers_def keys refs)
  have na: "a \<notin> referrers m {} b" using new by (simp add: referrers_def)
  have cnt: "\<And>c. ref_count (rc_at ?m' c) = (if c = b then ref_count (rc_at m b) + 1 else ref_count (rc_at m c))"
    using ne by (simp add: rc_at_modify add_outgoing_ref_def)
  { fix r assume "r \<in> R" then show "rc_count ?m' r" using rc_invD(1)[OF inv] by (simp add: keys) }
  { fix x c assume "rc_count ?m' x" "x \<notin> {}" "c \<in> rc_refs ?m' x"
    then show "rc_count ?m' c"
      using rc_invD(2)[OF inv, of x c] b by (auto simp: keys refs split: if_splits) }
  { fix x assume "rc_count ?m' x"
    then show "distinct (references (rc_at ?m' x)) \<and> x \<notin> rc_refs ?m' x"
      using rc_invD(3,4)[OF inv, of x] new ne by (auto simp: keys refs rl rc_refs_def) }
  { fix c assume "rc_count ?m' c"
    then have c: "rc_count m c" by (simp add: keys)
    show "ref_count (rc_at ?m' c) = (if c \<in> R then 1 else 0)
        + int (card (referrers ?m' {} c)) + int 0"
      using rc_invD(5)[OF inv c] na finite_referrers[of m "{}" b]
      by (cases "c = b") (auto simp: rf cnt) }
  { fix c :: int assume "(0::nat) < 0" then show "rc_count ?m' c" by simp }
  { fix x :: int assume "x \<in> {}" then show "rc_count ?m' x \<and> ref_count (rc_at ?m' x) = 0" by simp }
qed

lemma rc_heap_inv_add_ref:
  assumes "rc_heap_inv s"
  shows "rc_heap_inv (snd (rc_add_ref a b s))"
proof (cases "0 \<le> a \<and> 0 \<le> b \<and> rc_count (objects s) a \<and> rc_count (objects s) b \<and> a \<noteq> b
    \<and> \<not> has_reference_to (rc_at (objects s) a) b")
  case False
  then show ?thesis using assms
    by (auto simp: rc_add_ref_def counter_add_ref_def rc_heap_inv_def)
next
  case True
  then have "rc_inv (rc_modify b (\<lambda>ob. ob\<lparr>ref_count := ref_count ob + 1\<rparr>)
                  (rc_modify a (add_outgoing_ref b) (objects s))) (roots s) (\<lambda>b. 0) {}"
    using assms by (intro rc_inv_add_edge) (simp_all add: rc_heap_inv_def has_reference_to_def rc_refs_def)
  then show ?thesis using True
    by (simp add: rc_add_ref_def counter_add_ref_def rc_heap_inv_def)
qed

lemma rc_inv_remove_edge:
  assumes inv: "rc_inv m R (\<lambda>b. 0) {}" and a: "rc_count m a" and b: "rc_count m b"
    and old: "b \<in> rc_refs m a"
  shows "rc_inv (rc_modify b (\<lambda>ob. ob\<lparr>ref_count := ref_count ob - 1\<rparr>)
                  (rc_modify a (remove_outgoing_ref b) m)) R (\<lambda>b. 0) {}"
    (is "rc_inv ?m' R _ _")
    and "ref_count (rc_at m b) \<ge> 1"
proof -
  have ne: "a \<noteq> b" using rc_invD(4)[OF inv a] old by blast
  have da: "distinct (references (rc_at m a))" using inv a by (rule rc_invD(3))
  have keys: "\<And>x. rc_count ?m' x = rc_count m x" using a b by (auto simp: rc_count_modify)
  have rl: "\<And>x. references (rc_at ?m' x) =
      (if x = a then remove1 b (references (rc_at m a)) else references (rc_at m x))"
    using ne by (simp add: rc_at_modify remove_outgoing_ref_def)
  have refs: "\<And>x. rc_refs ?m' x = (if x = a then rc_refs m a - {b} else rc_refs m x)"
    using da by (simp add: rc_refs_def rl)
  have rf: "\<And>c. referrers ?m' {} c = (if c = b then referrers m {} b - {a} else referrers m {} c)"
    using a by (auto simp: referrers_def keys refs)
  have ia: "a \<in> referrers m {} b" using old a by (simp add: referrers_def)
  then have card: "card (referrers m {} b) = Suc (card (referrers m {} b - {a}))"
    by (rule card.remove[OF finite_referrers])
  show p: "ref_count (rc_at m b) \<ge> 1" using rc_invD(5)[OF inv b] card by simp
  have cnt: "\<And>c. ref_count (rc_at ?m' c) = (if c = b then ref_count (rc_at m b) - 1 else ref_count (rc_at m c))"
    using ne by (simp add: rc_at_modify remove_outgoing_ref_def)
  show "rc_inv ?m' R (\<lambda>b. 0) {}"
  proof (rule rc_invI)
    { fix r assume "r \<in> R" then show "rc_count ?m' r" using rc_invD(1)[OF inv] by (simp add: keys) }
    { fix x c assume "rc_count ?m' x" "x \<notin> {}" "c \<in> rc_refs ?m' x"
      then show "rc_count ?m' c"
        using rc_invD(2)[OF inv, of x c] by (auto simp: keys refs split: if_splits) }
    { fix x assume "rc_count ?m' x"
      then show "distinct (references (rc_at ?m' x)) \<and> x \<notin> rc_refs ?m' x"
        using rc_invD(3,4)[OF inv, of x] by (auto simp: keys refs rl) }
    { fix c assume "rc_count ?m' c"
      then have c: "rc_count m c" by (simp add: keys)
      show "ref_count (rc_at ?m' c) = (if c \<in> R then 1 else 0)
          + int (card (referrers ?m' {} c)) + int 0"
        using rc_invD(5)[OF inv c] card by (cases "c = b") (auto simp: rf cnt) }
    { fix c :: int assume "(0::nat) < 0" then show "rc_count ?m' c" by simp }
    { fix x :: int assume "x \<in> {}" then show "rc_count ?m' x \<and> ref_count (rc_at ?m' x) = 0" by simp }
  qed
qed

lemma counter_remove_ref_inv:
  assumes inv: "rc_inv m R (\<lambda>b. 0) {}"
  shows "rc_inv (snd (counter_remove_ref a b m)) R (\<lambda>b. 0) {}"
proof (cases "rc_count m b \<and> rc_count m a \<and> has_reference_to (rc_at m a) b")
  case False
  then show ?thesis using inv by (auto simp: counter_remove_ref_def)
next
  case True
  let ?m1 = "rc_modify b (\<lambda>ob. ob\<lparr>ref_count := ref_count ob - 1\<rparr>)
               (rc_modify a (remove_outgoing_ref b) m)"
  from True have old: "b \<in> rc_refs m a" by (simp add: has_reference_to_def rc_refs_def)
  note re = rc_inv_remove_edge[OF inv _ _ old]
  have inv1: "rc_inv ?m1 R (\<lambda>b. 0) {}" using True by (intro re(1)) simp_all
  have p: "ref_count (rc_at m b) \<ge> 1" using True by (intro re(2)) simp_all
  have ne: "a \<noteq> b" using rc_invD(4)[OF inv, of a] old True by blast
  have c1: "ref_count (rc_at ?m1 b) = ref_count (rc_at m b) - 1"
    using ne by (simp add: rc_at_modify remove_outgoing_ref_def)
  then have nn: "\<not> ref_count (rc_at ?m1 b) < 0" using p by simp
  have k1: "rc_count ?m1 b" by (simp add: rc_count_modify)
  show ?thesis
  proof (cases "ref_count (rc_at ?m1 b) = 0")
    case z: True
    have "rc_inv (fst (counter_cascade_delete b (?m1, {}))) R (\<lambda>b. 0) {}"
      using inv1 k1 z by (rule cascade_from_rest)
    then show ?thesis using True nn z by (simp add: counter_remove_ref_def Let_def)
  next
    case False
    then show ?thesis using True nn inv1 by (simp add: counter_remove_ref_def Let_def)
  qed
qed

lemma rc_heap_inv_remove_ref: "rc_heap_inv s \<Longrightarrow> rc_heap_inv (snd (rc_remove_ref a b s))"
  using counter_remove_ref_inv[of "objects s" "roots s" a b]
  by (simp add: rc_heap_inv_def rc_remove_ref_def split_beta)

lemma rc_heap_inv_step: "rc_heap_inv s \<Longrightarrow> rc_heap_inv (rc_step op s)"
  by (cases op)
    (simp_all add: rc_heap_inv_allocate rc_heap_inv_add_root rc_heap_inv_remove_root
      rc_heap_inv_add_ref rc_heap_inv_remove_ref)

lemma rc_heap_inv_run: "rc_heap_inv s \<Longrightarrow> rc_heap_inv (rc_run ops s)"
  unfolding rc_run_def by (induction ops arbitrary: s) (simp_all add: rc_heap_inv_step)

lemma rc_heap_inv_reachable: "rc_heap_inv (rc_run ops rc_init)"
  by (simp add: rc_heap_inv_run rc_heap_inv_init)

section \<open>Root immunity\<close>

definition alive_root :: "heap_map \<Rightarrow> int \<Rightarrow> bool" where
  "alive_root h i \<longleftrightarrow> object_exists h i \<and> is_root (heap_at h i)"

lemma alive_root_kills: "kills step h h' \<Longrightarrow> alive_root h i \<Longrightarrow> alive_root h' i"
  unfolding alive_root_def using kills_root_survives by blast

lemma add_reference_fields [simp]:
  "is_root (add_reference_to t ob) = is_root ob"
  "is_root (add_reference_from t ob) = is_root ob"
  "is_alive (add_reference_to t ob) = is_alive ob"
  "is_alive (add_reference_from t ob) = is_alive ob"
  "collection_step (add_reference_to t ob) = collection_step ob"
  "collection_step (add_reference_from t ob) = collection_step ob"
  by (simp_all add: add_reference_to_def add_reference_from_def)

lemma alive_root_add_reference:
  "alive_root (heap s) i \<Longrightarrow> alive_root (heap (snd (add_reference a b s))) i"
  by (auto simp: alive_root_def add_reference_def object_exists_modify heap_at_modify)

lemma alive_root_remove_edge:
  "object_exists h a \<Longrightarrow> object_exists h b \<Longrightarrow> alive_root h i \<Longrightarrow> alive_root (remove_edge a b h) i"
  by (auto simp: alive_root_def remove_edge_def heap_at_modify object_exists_modify)

lemma alive_root_ms_remove_reference:
  "alive_root (heap s) i \<Longrightarrow> alive_root (heap (snd (ms_remove_reference a b s))) i"
  by (simp add: ms_remove_reference_def alive_root_remove_edge)

lemma alive_root_cd_remove_reference:
  assumes wf: "wf_heap (heap s)" and r: "alive_root (heap s) i"
  shows "alive_root (heap (snd (cd_remove_reference a b s))) i"
proof (cases "object_exists (heap s) a \<and> object_exists (heap s) b
    \<and> b \<in> set (outgoing_references (heap_at (heap s) a))")
  case False
  then show ?thesis using r by (auto simp: cd_remove_reference_def)
next
  case True
  let ?s1 = "s\<lparr>heap := remove_edge a b (heap s)\<rparr>"
  have wf1: "wf_heap (heap ?s1)" using wf True by (simp add: wf_heap_remove_edge)
  have r1: "alive_root (heap ?s1) i" using r True by (simp add: alive_root_remove_edge)
  have "alive_root (heap (snd (cascade_delete b ?s1))) i"
    using cascade_delete_facts(2)[OF wf1] r1 by (rule alive_root_kills)
  then show ?thesis using True r1 by (simp add: cd_remove_reference_def Let_def)
qed

lemma alive_root_make_root: "alive_root (heap s) i \<Longrightarrow> alive_root (heap (make_root j s)) i"
  by (auto simp: alive_root_def make_root_def object_exists_modify heap_at_modify)

lemma alive_root_remove_root:
  "j \<noteq> i \<Longrightarrow> alive_root (heap s) i \<Longrightarrow> alive_root (heap (remove_root j s)) i"
  by (auto simp: alive_root_def remove_root_def object_exists_modify heap_at_modify)

lemma alive_root_place_object:
  assumes "ids_bounded s" "alive_root (heap s) i"
  shows "alive_root (heap (place_object sz s)) i"
proof -
  have "object_exists (heap s) i" using assms(2) by (simp add: alive_root_def)
  then have "i \<in> set (map fst (heap s))" by (rule object_exists_in_keys)
  then have "i \<noteq> next_object_id s" using next_id_fresh[OF assms(1)] by blast
  then show ?thesis using assms(2)
    by (simp add: alive_root_def place_object_def object_exists_update heap_at_update)
qed

lemma alive_root_allocate_with:
  assumes ok: "collect_ok collect" and wf: "wf_state s" and r: "alive_root (heap s) i"
  shows "alive_root (heap (snd (allocate_with collect sz s))) i"
proof -
  note ap = after_pressure_facts[OF ok wf, of sz]
  have r1: "alive_root (heap (after_pressure collect sz s)) i" using ap(2) r by (rule alive_root_kills)
  have "ids_bounded (after_pressure collect sz s)" using ap(1) by (simp add: wf_state_def)
  then have "alive_root (heap (place_object sz (after_pressure collect sz s))) i"
    using r1 by (rule alive_root_place_object)
  then show ?thesis using r r1 by (simp add: allocate_with_eq)
qed

lemma alive_root_ms_step:
  assumes wf: "wf_state s" and op: "op \<noteq> RemoveRoot i" and r: "alive_root (heap s) i"
  shows "alive_root (heap (ms_step op s)) i"
proof (cases op)
  case (Allocate sz)
  then show ?thesis using alive_root_allocate_with[OF collect_ok_ms wf r] by (simp add: ms_allocate_def)
next
  case (AddReference a b)
  then show ?thesis using r by (simp add: alive_root_add_reference)
next
  case (RemoveReference a b)
  then show ?thesis using r by (simp add: alive_root_ms_remove_reference)
next
  case Collect
  have "wf_heap (heap s)" using wf by (simp add: wf_state_def)
  then have "kills (current_step s) (heap s) (heap (snd (ms_collect s)))" by (rule ms_collect_facts(2))
  then show ?thesis using Collect r alive_root_kills by simp
next
  case (MakeRoot j)
  then show ?thesis using r by (simp add: alive_root_make_root)
next
  case (RemoveRoot j)
  then show ?thesis using r op by (simp add: alive_root_remove_root)
next
  case (SetCurrentStep n)
  then show ?thesis using r by simp
qed

lemma alive_root_cd_step:
  assumes wf: "wf_state s" and op: "op \<noteq> RemoveRoot i" and r: "alive_root (heap s) i"
  shows "alive_root (heap (cd_step op s)) i"
proof (cases op)
  case (Allocate sz)
  then show ?thesis using alive_root_allocate_with[OF collect_ok_cd wf r] by (simp add: cd_allocate_def)
next
  case (AddReference a b)
  then show ?thesis using r by (simp add: alive_root_add_reference)
next
  case (RemoveReference a b)
  have "wf_heap (heap s)" using wf by (simp add: wf_state_def)
  then show ?thesis using RemoveReference r by (simp add: alive_root_cd_remove_reference)
next
  case Collect
  have "wf_heap (heap s)" using wf by (simp add: wf_state_def)
  then have "kills (current_step s) (heap s) (heap (snd (cd_collect s)))" by (rule cd_collect_facts(2))
  then show ?thesis using Collect r alive_root_kills by simp
next
  case (MakeRoot j)
  then show ?thesis using r by (simp add: alive_root_make_root)
next
  case (RemoveRoot j)
  then show ?thesis using r op by (simp add: alive_root_remove_root)
next
  case (SetCurrentStep n)
  then show ?thesis using r by simp
qed

lemma alive_root_ms_run:
  "wf_state s \<Longrightarrow> RemoveRoot i \<notin> set ops \<Longrightarrow> alive_root (heap s) i \<Longrightarrow>
   alive_root (heap (ms_run ops s)) i"
proof (induction ops arbitrary: s)
  case Nil
  then show ?case by (simp add: ms_run_def)
next
  case (Cons op ops)
  have "alive_root (heap (ms_step op s)) i" using Cons.prems by (intro alive_root_ms_step) auto
  moreover have "wf_state (ms_step op s)" using Cons.prems(1) by (rule wf_state_ms_step)
  ultimately have "alive_root (heap (ms_run ops (ms_step op s))) i"
    using Cons.prems(2) by (intro Cons.IH) auto
  then show ?case by (simp add: ms_run_def)
qed

lemma alive_root_cd_run:
  "wf_state s \<Longrightarrow> RemoveRoot i \<notin> set ops \<Longrightarrow> alive_root (heap s) i \<Longrightarrow>
   alive_root (heap (cd_run ops s)) i"
proof (induction ops arbitrary: s)
  case Nil
  then show ?case by (simp add: cd_run_def)
next
  case (Cons op ops)
  have "alive_root (heap (cd_step op s)) i" using Cons.prems by (intro alive_root_cd_step) auto
  moreover have "wf_state (cd_step op s)" using Cons.prems(1) by (rule wf_state_cd_step)
  ultimately have "alive_root (heap (cd_run ops (cd_step op s))) i"
    using Cons.prems(2) by (intro Cons.IH) auto
  then show ?case by (simp add: cd_run_def)
qed

lemma roots_rc_step: "op \<noteq> RcRemoveRoot i \<Longrightarrow> i \<in> roots s \<Longrightarrow> i \<in> roots (rc_step op s)"
  by (cases op)
    (auto simp: rc_allocate_def rc_add_root_def rc_remove_root_def rc_add_ref_def
      rc_remove_ref_def Let_def split_beta)

lemma roots_rc_run:
  "RcRemoveRoot i \<notin> set ops \<Longrightarrow> i \<in> roots s \<Longrightarrow> i \<in> roots (rc_run ops s)"
  unfolding rc_run_def by (induction ops arbitrary: s) (auto simp: roots_rc_step)

lemma rc_root_in_heap: "rc_heap_inv s \<Longrightarrow> i \<in> roots s \<Longrightarrow> rc_count (objects s) i"
  unfolding rc_heap_inv_def by (rule rc_invD(1))

lemma run_append:
  "ms_run (ops @ ops') s = ms_run ops' (ms_run ops s)"
  "cd_run (ops @ ops') s = cd_run ops' (cd_run ops s)"
  "rc_run (rops @ rops') r = rc_run rops' (rc_run rops r)"
  by (simp_all add: ms_run_def cd_run_def rc_run_def)

text \<open>
  C6: take any operation sequence of any of the three collectors and an object whose
  root flag is set at its end (in the reference-counting heap: whose id is in the root
  set). After any further operations, none of which is the removal of that object's
  root, the object is still alive (in the reference-counting heap: still in the heap
  map) and still a root. Nothing is assumed about its incoming edges.
\<close>

theorem root_immunity:
  "(RemoveRoot i \<notin> set ops' \<and> alive_root (heap (ms_run ops (gc_init m t))) i
      \<longrightarrow> alive_root (heap (ms_run (ops @ ops') (gc_init m t))) i)
   \<and> (RemoveRoot i \<notin> set ops' \<and> alive_root (heap (cd_run ops (gc_init m t))) i
      \<longrightarrow> alive_root (heap (cd_run (ops @ ops') (gc_init m t))) i)
   \<and> (RcRemoveRoot i \<notin> set rops' \<and> i \<in> roots (rc_run rops rc_init)
      \<longrightarrow> i \<in> roots (rc_run (rops @ rops') rc_init)
          \<and> rc_count (objects (rc_run (rops @ rops') rc_init)) i)"
proof (intro conjI impI)
  assume "RemoveRoot i \<notin> set ops' \<and> alive_root (heap (ms_run ops (gc_init m t))) i"
  then show "alive_root (heap (ms_run (ops @ ops') (gc_init m t))) i"
    by (simp add: run_append alive_root_ms_run wf_state_ms_run wf_state_init)
next
  assume "RemoveRoot i \<notin> set ops' \<and> alive_root (heap (cd_run ops (gc_init m t))) i"
  then show "alive_root (heap (cd_run (ops @ ops') (gc_init m t))) i"
    by (simp add: run_append alive_root_cd_run wf_state_cd_run wf_state_init)
next
  assume h: "RcRemoveRoot i \<notin> set rops' \<and> i \<in> roots (rc_run rops rc_init)"
  then show r: "i \<in> roots (rc_run (rops @ rops') rc_init)"
    by (simp add: run_append roots_rc_run)
  show "rc_count (objects (rc_run (rops @ rops') rc_init)) i"
    using rc_heap_inv_reachable r by (rule rc_root_in_heap)
qed

text \<open>
  A root with no incoming edge survives collections and allocations in both graph-based
  collectors; in the reference-counting heap a root whose only referrer is deleted
  stays.
\<close>

theorem root_immunity_witness:
  "alive_root (heap (ms_run [Allocate 8, MakeRoot 0] default_gc)) 0
   \<and> in_refs (heap (ms_run [Allocate 8, MakeRoot 0] default_gc)) 0 = {}
   \<and> alive_root (heap (ms_run ([Allocate 8, MakeRoot 0] @ [Collect, Allocate 8, Collect]) default_gc)) 0
   \<and> alive_root (heap (cd_run [Allocate 8, MakeRoot 0] default_gc)) 0
   \<and> alive_root (heap (cd_run ([Allocate 8, MakeRoot 0] @ [Collect, Allocate 8, Collect]) default_gc)) 0
   \<and> 2 \<in> roots (rc_run [RcAllocate 1, RcAllocate 2, RcAddRoot 2, RcAddRoot 1, RcAddRef 1 2] rc_init)
   \<and> 2 \<in> roots (rc_run ([RcAllocate 1, RcAllocate 2, RcAddRoot 2, RcAddRoot 1, RcAddRef 1 2]
                          @ [RcRemoveRoot 1, RcRemoveRef 1 2]) rc_init)
   \<and> rc_count (objects (rc_run ([RcAllocate 1, RcAllocate 2, RcAddRoot 2, RcAddRoot 1, RcAddRef 1 2]
                          @ [RcRemoveRoot 1, RcRemoveRef 1 2]) rc_init)) 2"
proof -
  have a: "alive_root (heap (ms_run [Allocate 8, MakeRoot 0] default_gc)) 0"
    "in_refs (heap (ms_run [Allocate 8, MakeRoot 0] default_gc)) 0 = {}"
    "alive_root (heap (cd_run [Allocate 8, MakeRoot 0] default_gc)) 0"
    "2 \<in> roots (rc_run [RcAllocate 1, RcAllocate 2, RcAddRoot 2, RcAddRoot 1, RcAddRef 1 2] rc_init)"
    by code_simp+
  have n: "RemoveRoot 0 \<notin> set [Collect, Allocate 8, Collect]"
    "RcRemoveRoot 2 \<notin> set [RcRemoveRoot 1, RcRemoveRef 1 2]"
    by simp_all
  note t = root_immunity[where i = 0 and ops = "[Allocate 8, MakeRoot 0]"
      and ops' = "[Collect, Allocate 8, Collect]" and m = "1024 * 1024" and t = "(1024 * 1024 * 80) div 100",
      folded default_gc_def]
  note u = root_immunity[where i = 2
      and rops = "[RcAllocate 1, RcAllocate 2, RcAddRoot 2, RcAddRoot 1, RcAddRef 1 2]"
      and rops' = "[RcRemoveRoot 1, RcRemoveRef 1 2]"]
  show ?thesis using a n t u by blast
qed

section \<open>Self-loops\<close>

lemma rc_no_self_reference:
  assumes "rc_heap_inv s"
  shows "x \<notin> rc_refs (objects s) x"
proof (cases "rc_count (objects s) x")
  case True
  show ?thesis using assms True unfolding rc_heap_inv_def by (rule rc_invD(4))
next
  case False
  then show ?thesis by (simp add: rc_refs_def rc_at_def rc_count_def RCObject_default_def)
qed

lemma rc_add_ref_self: "rc_add_ref a a r = (False, r)"
  by (simp add: rc_add_ref_def)

lemma add_reference_self_ok: "object_exists (heap s) a \<Longrightarrow> fst (add_reference a a s)"
  by (simp add: add_reference_def)

lemma add_reference_self_out:
  "object_exists (heap s) a \<Longrightarrow> a \<in> out_refs (heap (snd (add_reference a a s))) a"
  by (auto simp: add_reference_def out_refs_def heap_at_modify add_reference_to_def
      add_reference_from_def set_insert_def set_insort_key)

lemma add_reference_self_in:
  assumes wf: "wf_heap (heap s)" and a: "object_exists (heap s) a"
  shows "a \<in> in_refs (heap (snd (add_reference a a s))) a"
proof (cases "a \<in> out_refs (heap s) a")
  case True
  then have "a \<in> in_refs (heap s) a" using wf_heapD(2)[OF wf a] by blast
  then show ?thesis using a True by (simp add: add_reference_def out_refs_def)
next
  case False
  then show ?thesis using a
    by (auto simp: add_reference_def out_refs_def in_refs_def heap_at_modify add_reference_to_def
        add_reference_from_def set_insert_def set_insort_key)
qed

text \<open>
  C5, as stated, fails for the two graph-based collectors: \<open>add_reference a a\<close> on an alive
  object has no guard against \<open>from_id = to_id\<close>, so allocating one object and adding the
  edge from it to itself puts its id into its own outgoing and incoming sets.
\<close>

theorem graph_collectors_self_loop:
  "0 \<in> out_refs (heap (ms_run [Allocate 8, AddReference 0 0] default_gc)) 0
   \<and> 0 \<in> in_refs (heap (ms_run [Allocate 8, AddReference 0 0] default_gc)) 0
   \<and> 0 \<in> out_refs (heap (cd_run [Allocate 8, AddReference 0 0] default_gc)) 0
   \<and> 0 \<in> in_refs (heap (cd_run [Allocate 8, AddReference 0 0] default_gc)) 0"
  by code_simp

text \<open>
  C5, amended. Reference counting: after any operation sequence no object holds a
  reference to itself, and \<open>add_ref a a\<close> fails and changes nothing in any state.
  Mark-Sweep and Cascade deletion: after any operation sequence, \<open>add_reference a a\<close> on
  an alive object \<open>a\<close> succeeds and \<open>a\<close> is then in its own outgoing set and in its own
  incoming set.
\<close>

theorem self_loops:
  "x \<notin> rc_refs (objects (rc_run rops rc_init)) x
   \<and> rc_add_ref a a r = (False, r)
   \<and> (object_exists (heap (ms_run ops (gc_init m t))) a
        \<longrightarrow> fst (add_reference a a (ms_run ops (gc_init m t)))
            \<and> a \<in> out_refs (heap (ms_run (ops @ [AddReference a a]) (gc_init m t))) a
            \<and> a \<in> in_refs (heap (ms_run (ops @ [AddReference a a]) (gc_init m t))) a)
   \<and> (object_exists (heap (cd_run ops (gc_init m t))) a
        \<longrightarrow> fst (add_reference a a (cd_run ops (gc_init m t)))
            \<and> a \<in> out_refs (heap (cd_run (ops @ [AddReference a a]) (gc_init m t))) a
            \<and> a \<in> in_refs (heap (cd_run (ops @ [AddReference a a]) (gc_init m t))) a)"
proof (intro conjI impI)
  show "x \<notin> rc_refs (objects (rc_run rops rc_init)) x"
    using rc_heap_inv_reachable by (rule rc_no_self_reference)
  show "rc_add_ref a a r = (False, r)" by (rule rc_add_ref_self)
next
  assume a: "object_exists (heap (ms_run ops (gc_init m t))) a"
  have wf: "wf_heap (heap (ms_run ops (gc_init m t)))"
    using wf_state_ms_run[OF wf_state_init] by (simp add: wf_state_def)
  show "fst (add_reference a a (ms_run ops (gc_init m t)))" using a by (rule add_reference_self_ok)
  show "a \<in> out_refs (heap (ms_run (ops @ [AddReference a a]) (gc_init m t))) a"
    using add_reference_self_out[OF a] by (simp add: ms_run_def)
  show "a \<in> in_refs (heap (ms_run (ops @ [AddReference a a]) (gc_init m t))) a"
    using add_reference_self_in[OF wf a] by (simp add: ms_run_def)
next
  assume a: "object_exists (heap (cd_run ops (gc_init m t))) a"
  have wf: "wf_heap (heap (cd_run ops (gc_init m t)))"
    using wf_state_cd_run[OF wf_state_init] by (simp add: wf_state_def)
  show "fst (add_reference a a (cd_run ops (gc_init m t)))" using a by (rule add_reference_self_ok)
  show "a \<in> out_refs (heap (cd_run (ops @ [AddReference a a]) (gc_init m t))) a"
    using add_reference_self_out[OF a] by (simp add: cd_run_def)
  show "a \<in> in_refs (heap (cd_run (ops @ [AddReference a a]) (gc_init m t))) a"
    using add_reference_self_in[OF wf a] by (simp add: cd_run_def)
qed

text \<open>
  With two objects and an edge between them: a second self-edge request on the
  reference-counting heap is refused, and the graph-based collectors record it.
\<close>

theorem self_loops_witness:
  "object_exists (heap (ms_run [Allocate 8, Allocate 8, AddReference 0 1] default_gc)) 1
   \<and> object_exists (heap (cd_run [Allocate 8, Allocate 8, AddReference 0 1] default_gc)) 1
   \<and> 1 \<in> out_refs (heap (ms_run ([Allocate 8, Allocate 8, AddReference 0 1] @ [AddReference 1 1]) default_gc)) 1
   \<and> 1 \<in> in_refs (heap (ms_run ([Allocate 8, Allocate 8, AddReference 0 1] @ [AddReference 1 1]) default_gc)) 1
   \<and> 1 \<in> out_refs (heap (cd_run ([Allocate 8, Allocate 8, AddReference 0 1] @ [AddReference 1 1]) default_gc)) 1
   \<and> 1 \<in> in_refs (heap (cd_run ([Allocate 8, Allocate 8, AddReference 0 1] @ [AddReference 1 1]) default_gc)) 1
   \<and> 1 \<notin> rc_refs (objects (rc_run [RcAllocate 1, RcAddRoot 1, RcAddRef 1 1] rc_init)) 1
   \<and> rc_add_ref 1 1 (rc_run [RcAllocate 1, RcAddRoot 1] rc_init)
       = (False, rc_run [RcAllocate 1, RcAddRoot 1] rc_init)"
proof -
  have a: "object_exists (heap (ms_run [Allocate 8, Allocate 8, AddReference 0 1] default_gc)) 1"
    "object_exists (heap (cd_run [Allocate 8, Allocate 8, AddReference 0 1] default_gc)) 1"
    by code_simp+
  note t = self_loops[where a = 1 and ops = "[Allocate 8, Allocate 8, AddReference 0 1]"
      and m = "1024 * 1024" and t = "(1024 * 1024 * 80) div 100"
      and x = 1 and rops = "[RcAllocate 1, RcAddRoot 1, RcAddRef 1 1]"
      and r = "rc_run [RcAllocate 1, RcAddRoot 1] rc_init",
      folded default_gc_def]
  show ?thesis using a t by blast
qed

section \<open>What a death leaves behind\<close>

definition stamped :: "int \<Rightarrow> heap_map \<Rightarrow> heap_map \<Rightarrow> int \<Rightarrow> bool" where
  "stamped step h h' i \<longleftrightarrow>
     object_exists h' i \<or> \<not> object_exists h i \<or> collection_step (heap_at h' i) = step"

lemma stamped_kills: "kills step h h' \<Longrightarrow> stamped step h h' i"
  unfolding kills_def stamped_def by blast

lemma stamped_same_exists: "object_exists h' i = object_exists h i \<Longrightarrow> stamped step h h' i"
  by (simp add: stamped_def)

lemma object_exists_add_reference:
  "object_exists (heap (snd (add_reference a b s))) i = object_exists (heap s) i"
  by (auto simp: add_reference_def object_exists_modify heap_at_modify)

lemma object_exists_make_root:
  "object_exists (heap (make_root j s)) i = object_exists (heap s) i"
  by (auto simp: make_root_def object_exists_modify)

lemma object_exists_remove_root:
  "object_exists (heap (remove_root j s)) i = object_exists (heap s) i"
  by (auto simp: remove_root_def object_exists_modify)

lemma object_exists_ms_remove_reference:
  "object_exists (heap (snd (ms_remove_reference a b s))) i = object_exists (heap s) i"
  by (simp add: ms_remove_reference_def)

lemma place_object_other:
  assumes "ids_bounded s" "i \<in> set (map fst (heap s))"
  shows "object_exists (heap (place_object sz s)) i = object_exists (heap s) i"
    and "heap_at (heap (place_object sz s)) i = heap_at (heap s) i"
proof -
  have "i \<noteq> next_object_id s" using next_id_fresh[OF assms(1)] assms(2) by blast
  then show "object_exists (heap (place_object sz s)) i = object_exists (heap s) i"
    and "heap_at (heap (place_object sz s)) i = heap_at (heap s) i"
    by (simp_all add: place_object_def object_exists_update heap_at_update)
qed

lemma stamped_allocate_with:
  assumes ok: "collect_ok collect" and wf: "wf_state s"
  shows "stamped (current_step s) (heap s) (heap (snd (allocate_with collect sz s))) i"
proof (cases "object_exists (heap s) i")
  case False
  then show ?thesis by (simp add: stamped_def)
next
  case True
  let ?s1 = "after_pressure collect sz s"
  note ap = after_pressure_facts[OF ok wf, of sz]
  have k: "stamped (current_step s) (heap s) (heap ?s1) i" using ap(2) by (rule stamped_kills)
  have b: "ids_bounded ?s1" using ap(1) by (simp add: wf_state_def)
  have "i \<in> set (map fst (heap s))" using True by (rule object_exists_in_keys)
  then have "i \<in> set (map fst (heap ?s1))" using kills_keys[OF ap(2)] by simp
  note po = place_object_other[OF b this, of sz]
  have "stamped (current_step s) (heap s) (heap (place_object sz ?s1)) i"
    using k by (simp add: stamped_def po)
  then show ?thesis using k by (simp add: allocate_with_eq stamped_def)
qed

lemma stamped_cd_remove_reference:
  assumes wf: "wf_heap (heap s)"
  shows "stamped (current_step s) (heap s) (heap (snd (cd_remove_reference a b s))) i"
proof (cases "object_exists (heap s) a \<and> object_exists (heap s) b
    \<and> b \<in> set (outgoing_references (heap_at (heap s) a))")
  case False
  then show ?thesis by (auto simp: cd_remove_reference_def stamped_def)
next
  case True
  let ?s1 = "s\<lparr>heap := remove_edge a b (heap s)\<rparr>"
  have wf1: "wf_heap (heap ?s1)" using wf True by (simp add: wf_heap_remove_edge)
  have "stamped (current_step ?s1) (heap ?s1) (heap (snd (cascade_delete b ?s1))) i"
    using cascade_delete_facts(2)[OF wf1] by (rule stamped_kills)
  then have "stamped (current_step s) (heap s) (heap (snd (cascade_delete b ?s1))) i"
    using True by (simp add: stamped_def)
  then show ?thesis using True by (simp add: cd_remove_reference_def Let_def stamped_def)
qed

lemma stamped_ms_step:
  assumes wf: "wf_state s"
  shows "stamped (current_step s) (heap s) (heap (ms_step op s)) i"
proof (cases op)
  case (Allocate sz)
  then show ?thesis using stamped_allocate_with[OF collect_ok_ms wf] by (simp add: ms_allocate_def)
next
  case (AddReference a b)
  then show ?thesis by (simp add: stamped_same_exists object_exists_add_reference)
next
  case (RemoveReference a b)
  then show ?thesis by (simp add: stamped_same_exists object_exists_ms_remove_reference)
next
  case Collect
  have "wf_heap (heap s)" using wf by (simp add: wf_state_def)
  then have "kills (current_step s) (heap s) (heap (snd (ms_collect s)))" by (rule ms_collect_facts(2))
  then show ?thesis using Collect by (simp add: stamped_kills)
next
  case (MakeRoot j)
  then show ?thesis by (simp add: stamped_same_exists object_exists_make_root)
next
  case (RemoveRoot j)
  then show ?thesis by (simp add: stamped_same_exists object_exists_remove_root)
next
  case (SetCurrentStep n)
  then show ?thesis by (simp add: stamped_def)
qed

lemma stamped_cd_step:
  assumes wf: "wf_state s"
  shows "stamped (current_step s) (heap s) (heap (cd_step op s)) i"
proof (cases op)
  case (Allocate sz)
  then show ?thesis using stamped_allocate_with[OF collect_ok_cd wf] by (simp add: cd_allocate_def)
next
  case (AddReference a b)
  then show ?thesis by (simp add: stamped_same_exists object_exists_add_reference)
next
  case (RemoveReference a b)
  have "wf_heap (heap s)" using wf by (simp add: wf_state_def)
  then show ?thesis using RemoveReference by (simp add: stamped_cd_remove_reference)
next
  case Collect
  have "wf_heap (heap s)" using wf by (simp add: wf_state_def)
  then have "kills (current_step s) (heap s) (heap (snd (cd_collect s)))" by (rule cd_collect_facts(2))
  then show ?thesis using Collect by (simp add: stamped_kills)
next
  case (MakeRoot j)
  then show ?thesis by (simp add: stamped_same_exists object_exists_make_root)
next
  case (RemoveRoot j)
  then show ?thesis by (simp add: stamped_same_exists object_exists_remove_root)
next
  case (SetCurrentStep n)
  then show ?thesis by (simp add: stamped_def)
qed

lemma wf_heap_no_dangling:
  assumes "wf_heap h" "\<not> object_exists h i" "object_exists h x"
  shows "i \<notin> out_refs h x" and "i \<notin> in_refs h x"
  using wf_heapD(2)[OF assms(1,3)] wf_heapD(3)[OF assms(1,3)] assms(2) by blast+

lemma rc_no_dangling:
  assumes inv: "rc_heap_inv s" and i: "\<not> rc_count (objects s) i"
  shows "i \<notin> rc_refs (objects s) x"
proof (cases "rc_count (objects s) x")
  case True
  show ?thesis
  proof
    assume "i \<in> rc_refs (objects s) x"
    then have "rc_count (objects s) i"
      using rc_invD(2)[OF inv[unfolded rc_heap_inv_def] True] by simp
    then show False using i by simp
  qed
next
  case False
  then show ?thesis by (simp add: rc_refs_def rc_at_def rc_count_def RCObject_default_def)
qed

lemma run_snoc:
  "ms_run (ops @ [op]) s = ms_step op (ms_run ops s)"
  "cd_run (ops @ [op]) s = cd_step op (cd_run ops s)"
  by (simp_all add: ms_run_def cd_run_def)

text \<open>
  C4, as stated, fails: neither the sweep nor the cascade clears the dead object's own
  two sets. After a Mark-Sweep \<open>collect\<close> kills the cycle of objects 1 and 2, the record of
  the dead object 1 still has 2 in its outgoing and in its incoming set; after the
  cascade that a \<open>remove_reference\<close> starts in the Cascade collector kills the chain
  1, 2, the record of the dead object 1 still has 2 in its outgoing set.
\<close>

theorem dead_object_keeps_own_sets:
  "object_exists (heap (ms_run [Allocate 8, Allocate 8, Allocate 8, MakeRoot 0,
       AddReference 1 2, AddReference 2 1] default_gc)) 1
   \<and> \<not> object_exists (heap (ms_run [Allocate 8, Allocate 8, Allocate 8, MakeRoot 0,
       AddReference 1 2, AddReference 2 1, Collect] default_gc)) 1
   \<and> 2 \<in> out_refs (heap (ms_run [Allocate 8, Allocate 8, Allocate 8, MakeRoot 0,
       AddReference 1 2, AddReference 2 1, Collect] default_gc)) 1
   \<and> 2 \<in> in_refs (heap (ms_run [Allocate 8, Allocate 8, Allocate 8, MakeRoot 0,
       AddReference 1 2, AddReference 2 1, Collect] default_gc)) 1
   \<and> object_exists (heap (cd_run [Allocate 8, Allocate 8, Allocate 8, MakeRoot 0,
       AddReference 0 1, AddReference 1 2] default_gc)) 1
   \<and> \<not> object_exists (heap (cd_run [Allocate 8, Allocate 8, Allocate 8, MakeRoot 0,
       AddReference 0 1, AddReference 1 2, RemoveReference 0 1] default_gc)) 1
   \<and> 2 \<in> out_refs (heap (cd_run [Allocate 8, Allocate 8, Allocate 8, MakeRoot 0,
       AddReference 0 1, AddReference 1 2, RemoveReference 0 1] default_gc)) 1"
  by code_simp

text \<open>
  C4, amended. Mark-Sweep and Cascade deletion, after any operation sequence: an object
  that is alive before an operation and dead after it has its \<open>collection_step\<close> equal to
  the simulation step at which the operation ran; and in every reachable state no alive
  object has the id of an object that is not alive in its outgoing or in its incoming
  set. Reference counting, after any operation sequence: no object's reference list holds
  an id that is not in the heap map, in particular not the id of an erased object.
\<close>

theorem death_detaches_and_stamps:
  "(object_exists (heap (ms_run ops (gc_init m t))) i
      \<and> \<not> object_exists (heap (ms_run (ops @ [op]) (gc_init m t))) i
      \<longrightarrow> collection_step (heap_at (heap (ms_run (ops @ [op]) (gc_init m t))) i)
            = current_step (ms_run ops (gc_init m t)))
   \<and> (\<not> object_exists (heap (ms_run ops (gc_init m t))) i
      \<and> object_exists (heap (ms_run ops (gc_init m t))) x
      \<longrightarrow> i \<notin> out_refs (heap (ms_run ops (gc_init m t))) x
          \<and> i \<notin> in_refs (heap (ms_run ops (gc_init m t))) x)
   \<and> (object_exists (heap (cd_run ops (gc_init m t))) i
      \<and> \<not> object_exists (heap (cd_run (ops @ [op]) (gc_init m t))) i
      \<longrightarrow> collection_step (heap_at (heap (cd_run (ops @ [op]) (gc_init m t))) i)
            = current_step (cd_run ops (gc_init m t)))
   \<and> (\<not> object_exists (heap (cd_run ops (gc_init m t))) i
      \<and> object_exists (heap (cd_run ops (gc_init m t))) x
      \<longrightarrow> i \<notin> out_refs (heap (cd_run ops (gc_init m t))) x
          \<and> i \<notin> in_refs (heap (cd_run ops (gc_init m t))) x)
   \<and> (\<not> rc_count (objects (rc_run rops rc_init)) i
      \<longrightarrow> i \<notin> rc_refs (objects (rc_run rops rc_init)) x)"
proof -
  have wm: "wf_state (ms_run ops (gc_init m t))" using wf_state_init by (rule wf_state_ms_run)
  have wc: "wf_state (cd_run ops (gc_init m t))" using wf_state_init by (rule wf_state_cd_run)
  have a: "object_exists (heap (ms_run ops (gc_init m t))) i
      \<and> \<not> object_exists (heap (ms_run (ops @ [op]) (gc_init m t))) i
      \<longrightarrow> collection_step (heap_at (heap (ms_run (ops @ [op]) (gc_init m t))) i)
            = current_step (ms_run ops (gc_init m t))"
    using stamped_ms_step[OF wm, of op i] by (auto simp: stamped_def run_snoc)
  have b: "\<not> object_exists (heap (ms_run ops (gc_init m t))) i
      \<and> object_exists (heap (ms_run ops (gc_init m t))) x
      \<longrightarrow> i \<notin> out_refs (heap (ms_run ops (gc_init m t))) x
          \<and> i \<notin> in_refs (heap (ms_run ops (gc_init m t))) x"
    using wm wf_heap_no_dangling[of "heap (ms_run ops (gc_init m t))" i x]
    by (simp add: wf_state_def)
  have c: "object_exists (heap (cd_run ops (gc_init m t))) i
      \<and> \<not> object_exists (heap (cd_run (ops @ [op]) (gc_init m t))) i
      \<longrightarrow> collection_step (heap_at (heap (cd_run (ops @ [op]) (gc_init m t))) i)
            = current_step (cd_run ops (gc_init m t))"
    using stamped_cd_step[OF wc, of op i] by (auto simp: stamped_def run_snoc)
  have d: "\<not> object_exists (heap (cd_run ops (gc_init m t))) i
      \<and> object_exists (heap (cd_run ops (gc_init m t))) x
      \<longrightarrow> i \<notin> out_refs (heap (cd_run ops (gc_init m t))) x
          \<and> i \<notin> in_refs (heap (cd_run ops (gc_init m t))) x"
    using wc wf_heap_no_dangling[of "heap (cd_run ops (gc_init m t))" i x]
    by (simp add: wf_state_def)
  have e: "\<not> rc_count (objects (rc_run rops rc_init)) i
      \<longrightarrow> i \<notin> rc_refs (objects (rc_run rops rc_init)) x"
    using rc_no_dangling[OF rc_heap_inv_reachable] by blast
  show ?thesis using a b c d e by (intro conjI)
qed

text \<open>
  Mark-Sweep: a collection at step 7 kills the unreachable cycle of objects 1 and 2.
  Cascade deletion: removing the edge from the root 0 to 1 at step 7 kills the chain 1, 2.
  Reference counting: removing the only reference to object 2 erases it.
\<close>

theorem death_detaches_and_stamps_witness:
  "object_exists (heap (ms_run [Allocate 8, Allocate 8, Allocate 8, MakeRoot 0, AddReference 1 2, AddReference 2 1, SetCurrentStep 7] default_gc)) 1
   \<and> \<not> object_exists (heap (ms_run ([Allocate 8, Allocate 8, Allocate 8, MakeRoot 0, AddReference 1 2, AddReference 2 1, SetCurrentStep 7] @ [Collect]) default_gc)) 1
   \<and> collection_step (heap_at (heap (ms_run ([Allocate 8, Allocate 8, Allocate 8, MakeRoot 0, AddReference 1 2, AddReference 2 1, SetCurrentStep 7] @ [Collect]) default_gc)) 1)
       = current_step (ms_run [Allocate 8, Allocate 8, Allocate 8, MakeRoot 0, AddReference 1 2, AddReference 2 1, SetCurrentStep 7] default_gc)
   \<and> object_exists (heap (ms_run ([Allocate 8, Allocate 8, Allocate 8, MakeRoot 0, AddReference 1 2, AddReference 2 1, SetCurrentStep 7] @ [Collect]) default_gc)) 0
   \<and> 1 \<notin> out_refs (heap (ms_run ([Allocate 8, Allocate 8, Allocate 8, MakeRoot 0, AddReference 1 2, AddReference 2 1, SetCurrentStep 7] @ [Collect]) default_gc)) 0
   \<and> 1 \<notin> in_refs (heap (ms_run ([Allocate 8, Allocate 8, Allocate 8, MakeRoot 0, AddReference 1 2, AddReference 2 1, SetCurrentStep 7] @ [Collect]) default_gc)) 0
   \<and> object_exists (heap (cd_run [Allocate 8, Allocate 8, Allocate 8, MakeRoot 0, AddReference 0 1, AddReference 1 2, SetCurrentStep 7] default_gc)) 1
   \<and> \<not> object_exists (heap (cd_run ([Allocate 8, Allocate 8, Allocate 8, MakeRoot 0, AddReference 0 1, AddReference 1 2, SetCurrentStep 7] @ [RemoveReference 0 1]) default_gc)) 1
   \<and> collection_step (heap_at (heap (cd_run ([Allocate 8, Allocate 8, Allocate 8, MakeRoot 0, AddReference 0 1, AddReference 1 2, SetCurrentStep 7] @ [RemoveReference 0 1]) default_gc)) 1)
       = current_step (cd_run [Allocate 8, Allocate 8, Allocate 8, MakeRoot 0, AddReference 0 1, AddReference 1 2, SetCurrentStep 7] default_gc)
   \<and> object_exists (heap (cd_run ([Allocate 8, Allocate 8, Allocate 8, MakeRoot 0, AddReference 0 1, AddReference 1 2, SetCurrentStep 7] @ [RemoveReference 0 1]) default_gc)) 0
   \<and> 1 \<notin> out_refs (heap (cd_run ([Allocate 8, Allocate 8, Allocate 8, MakeRoot 0, AddReference 0 1, AddReference 1 2, SetCurrentStep 7] @ [RemoveReference 0 1]) default_gc)) 0
   \<and> 1 \<notin> in_refs (heap (cd_run ([Allocate 8, Allocate 8, Allocate 8, MakeRoot 0, AddReference 0 1, AddReference 1 2, SetCurrentStep 7] @ [RemoveReference 0 1]) default_gc)) 0
   \<and> \<not> rc_count (objects (rc_run [RcAllocate 1, RcAllocate 2, RcAddRoot 1, RcAddRef 1 2, RcRemoveRef 1 2] rc_init)) 2
   \<and> 2 \<notin> rc_refs (objects (rc_run [RcAllocate 1, RcAllocate 2, RcAddRoot 1, RcAddRef 1 2, RcRemoveRef 1 2] rc_init)) 1"
proof -
  have h: "object_exists (heap (ms_run [Allocate 8, Allocate 8, Allocate 8, MakeRoot 0, AddReference 1 2, AddReference 2 1, SetCurrentStep 7] default_gc)) 1"
    "\<not> object_exists (heap (ms_run ([Allocate 8, Allocate 8, Allocate 8, MakeRoot 0, AddReference 1 2, AddReference 2 1, SetCurrentStep 7] @ [Collect]) default_gc)) 1"
    "object_exists (heap (ms_run ([Allocate 8, Allocate 8, Allocate 8, MakeRoot 0, AddReference 1 2, AddReference 2 1, SetCurrentStep 7] @ [Collect]) default_gc)) 0"
    "object_exists (heap (cd_run [Allocate 8, Allocate 8, Allocate 8, MakeRoot 0, AddReference 0 1, AddReference 1 2, SetCurrentStep 7] default_gc)) 1"
    "\<not> object_exists (heap (cd_run ([Allocate 8, Allocate 8, Allocate 8, MakeRoot 0, AddReference 0 1, AddReference 1 2, SetCurrentStep 7] @ [RemoveReference 0 1]) default_gc)) 1"
    "object_exists (heap (cd_run ([Allocate 8, Allocate 8, Allocate 8, MakeRoot 0, AddReference 0 1, AddReference 1 2, SetCurrentStep 7] @ [RemoveReference 0 1]) default_gc)) 0"
    "\<not> rc_count (objects (rc_run [RcAllocate 1, RcAllocate 2, RcAddRoot 1, RcAddRef 1 2, RcRemoveRef 1 2] rc_init)) 2"
    by code_simp+
  note t1 = death_detaches_and_stamps[where i = 1 and x = 0 and ops = "[Allocate 8, Allocate 8, Allocate 8, MakeRoot 0, AddReference 1 2, AddReference 2 1, SetCurrentStep 7]" and op = Collect
      and rops = "[RcAllocate 1, RcAllocate 2, RcAddRoot 1, RcAddRef 1 2, RcRemoveRef 1 2]" and m = "1024 * 1024" and t = "(1024 * 1024 * 80) div 100",
      folded default_gc_def, THEN conjunct1, rule_format]
  note t2 = death_detaches_and_stamps[where i = 1 and x = 0 and ops = "[Allocate 8, Allocate 8, Allocate 8, MakeRoot 0, AddReference 1 2, AddReference 2 1, SetCurrentStep 7] @ [Collect]" and op = Collect
      and rops = "[RcAllocate 1, RcAllocate 2, RcAddRoot 1, RcAddRef 1 2, RcRemoveRef 1 2]" and m = "1024 * 1024" and t = "(1024 * 1024 * 80) div 100",
      folded default_gc_def, THEN conjunct2, THEN conjunct1, rule_format]
  note t3 = death_detaches_and_stamps[where i = 1 and x = 0 and ops = "[Allocate 8, Allocate 8, Allocate 8, MakeRoot 0, AddReference 0 1, AddReference 1 2, SetCurrentStep 7]" and op = "RemoveReference 0 1"
      and rops = "[RcAllocate 1, RcAllocate 2, RcAddRoot 1, RcAddRef 1 2, RcRemoveRef 1 2]" and m = "1024 * 1024" and t = "(1024 * 1024 * 80) div 100",
      folded default_gc_def, THEN conjunct2, THEN conjunct2, THEN conjunct1, rule_format]
  note t4 = death_detaches_and_stamps[where i = 1 and x = 0 and ops = "[Allocate 8, Allocate 8, Allocate 8, MakeRoot 0, AddReference 0 1, AddReference 1 2, SetCurrentStep 7] @ [RemoveReference 0 1]"
      and op = Collect
      and rops = "[RcAllocate 1, RcAllocate 2, RcAddRoot 1, RcAddRef 1 2, RcRemoveRef 1 2]" and m = "1024 * 1024" and t = "(1024 * 1024 * 80) div 100",
      folded default_gc_def, THEN conjunct2, THEN conjunct2, THEN conjunct2, THEN conjunct1, rule_format]
  note t5 = death_detaches_and_stamps[where i = 2 and x = 1 and ops = "[]" and op = Collect
      and rops = "[RcAllocate 1, RcAllocate 2, RcAddRoot 1, RcAddRef 1 2, RcRemoveRef 1 2]" and m = 0 and t = 0,
      THEN conjunct2, THEN conjunct2, THEN conjunct2, THEN conjunct2, rule_format]
  note c1 = t1[OF conjI[OF h(1) h(2)]]
  note c2 = t2[OF conjI[OF h(2) h(3)]]
  note c3 = t3[OF conjI[OF h(4) h(5)]]
  note c4 = t4[OF conjI[OF h(5) h(6)]]
  note c5 = t5[OF h(7)]
  show ?thesis
    by (intro conjI h c1 c2[THEN conjunct1] c2[THEN conjunct2] c3 c4[THEN conjunct1]
        c4[THEN conjunct2] c5)
qed

section \<open>The reactive and the batch path of the Cascade collector\<close>










subsection \<open>Removing an edge from an orphan-free state\<close>




subsection \<open>The cascade from one orphan leaves the other orphans alone\<close>













end
